theory Spec2Isabelle
  imports Complex_Main "HOL-Library.Multiset"
begin

section \<open>Configuration and constants\<close>

text \<open>
  The module constants of \<^verbatim>\<open>simulation.py\<close>. Python floats are read as real numbers
  (no rounding, no NaN); Python ints are unbounded integers.
\<close>

definition SEARCH_RADIUS_KM :: real where
  "SEARCH_RADIUS_KM = 1"

definition MAX_CAPACITY :: int where
  "MAX_CAPACITY = 4"

definition PRICE_BASE :: int where
  "PRICE_BASE = 100"

definition MARKUP_PERCENT :: real where
  "MARKUP_PERCENT = 20 / 100"

section \<open>Entities\<close>

type_synonym coord = "real \<times> real"

text \<open>
  \<^verbatim>\<open>class User\<close>, with the fields the matching reads: \<open>ident\<close> is \<^verbatim>\<open>self.id\<close>.
  The fields \<^verbatim>\<open>role\<close>, \<^verbatim>\<open>days\<close>, \<^verbatim>\<open>route_score\<close>, \<^verbatim>\<open>vehicle_type\<close>,
  \<^verbatim>\<open>home_neighborhood\<close> and \<^verbatim>\<open>work_area\<close> are never read or written by
  \<^verbatim>\<open>match_algorithm\<close> or by the statistics and are left out.
\<close>

record user =
  ident :: int
  name :: string
  origin :: coord
  dest :: coord
  schedule :: int

text \<open>
  \<^verbatim>\<open>class Driver(User)\<close>. Objects are referred to by address: a driver's address is its
  position in the list handed to \<^verbatim>\<open>match_algorithm\<close>, a passenger's address is its
  position in the passenger list (each list position is an object of its own).
  \<open>passengers\<close> holds passenger addresses.
\<close>

record driver = user +
  capacity :: int
  passengers :: "nat list"

text \<open>
  The reasons of a compatibility verdict. The source builds message strings with
  formatted floats; a reason here carries the values its text interpolates:
  \<^verbatim>\<open>"Origin too far: {dist_origin:.2f}km ..."\<close>,
  \<^verbatim>\<open>"Destination too far: {dist_dest:.2f}km ..."\<close>,
  \<^verbatim>\<open>"Schedule mismatch: Driver {d.schedule}:00, Passenger {p.schedule}:00"\<close>.
\<close>

datatype reason =
    Origin_too_far real
  | Destination_too_far real
  | Schedule_mismatch int int

text \<open>
  One entry of \<^verbatim>\<open>p.rejection_reasons\<close>, a dict in the source. The key
  \<^verbatim>\<open>'matched'\<close> is absent when the entry is created: \<open>matched = None\<close> is the
  absent key.
\<close>

record rejection =
  driver_id :: int
  driver_name :: string
  rej_pickup_distance :: real
  rej_dropoff_distance :: real
  reasons :: "reason list"
  is_compatible :: bool
  matched :: "bool option"

text \<open>
  \<^verbatim>\<open>class Passenger(User)\<close>. \<open>matched_driver\<close> is \<^verbatim>\<open>None\<close> or a driver address;
  the distances are \<^verbatim>\<open>None\<close> until the passenger is matched.
\<close>

record passenger = user +
  matched_driver :: "nat option"
  pickup_distance :: "real option"
  dropoff_distance :: "real option"
  fare :: real
  rejection_reasons :: "rejection list"

text \<open>
  The constructors. \<^verbatim>\<open>User.__init__\<close> draws the schedule with
  \<^verbatim>\<open>random.randint(7, 11)\<close>: the draw is the parameter \<open>sched\<close>. The parameter
  \<open>nm\<close> is the value of \<^verbatim>\<open>name or f"{role.capitalize()}_{uid}"\<close>.
\<close>

definition Driver :: "int \<Rightarrow> coord \<Rightarrow> coord \<Rightarrow> string \<Rightarrow> int \<Rightarrow> driver" where
  "Driver uid org dst nm sched =
     \<lparr>ident = uid, name = nm, origin = org, dest = dst, schedule = sched,
      capacity = MAX_CAPACITY, passengers = []\<rparr>"

definition Passenger :: "int \<Rightarrow> coord \<Rightarrow> coord \<Rightarrow> string \<Rightarrow> int \<Rightarrow> passenger" where
  "Passenger uid org dst nm sched =
     \<lparr>ident = uid, name = nm, origin = org, dest = dst, schedule = sched,
      matched_driver = None, pickup_distance = None, dropoff_distance = None,
      fare = 0, rejection_reasons = []\<rparr>"

section \<open>Distance\<close>

text \<open>\<^verbatim>\<open>math.radians\<close> and \<^verbatim>\<open>math.atan2\<close> on real numbers.\<close>

definition radians :: "real \<Rightarrow> real" where
  "radians x = x * pi / 180"

definition atan2 :: "real \<Rightarrow> real \<Rightarrow> real" where
  "atan2 y x =
     (if 0 < x then arctan (y / x)
      else if x < 0 then (if 0 \<le> y then arctan (y / x) + pi else arctan (y / x) - pi)
      else if 0 < y then pi / 2
      else if y < 0 then - (pi / 2)
      else 0)"

text \<open>
  \<^verbatim>\<open>haversine(coord1, coord2)\<close>, the great-circle distance in km. The argument of
  both square roots lies in \<open>[0, 1]\<close> over the reals, so \<^verbatim>\<open>math.sqrt\<close> does not raise.
\<close>

definition haversine :: "coord \<Rightarrow> coord \<Rightarrow> real" where
  "haversine coord1 coord2 =
     (let R = 6371;
          lat1 = radians (fst coord1); lon1 = radians (snd coord1);
          lat2 = radians (fst coord2); lon2 = radians (snd coord2);
          dlat = lat2 - lat1;
          dlon = lon2 - lon1;
          a = (sin (dlat / 2))\<^sup>2 + cos lat1 * cos lat2 * (sin (dlon / 2))\<^sup>2;
          c = 2 * atan2 (sqrt a) (sqrt (1 - a))
      in R * c)"

section \<open>The matching algorithm\<close>

text \<open>
  A match record, a dict in the source with the keys \<^verbatim>\<open>'driver'\<close>,
  \<^verbatim>\<open>'passenger'\<close>, \<^verbatim>\<open>'pickup_dist'\<close>, \<^verbatim>\<open>'dropoff_dist'\<close>, \<^verbatim>\<open>'fare'\<close>; the two
  references are addresses.
\<close>

record match_detail =
  md_driver :: nat
  md_passenger :: nat
  pickup_dist :: real
  dropoff_dist :: real
  md_fare :: real

text \<open>
  What \<^verbatim>\<open>match_algorithm\<close> reads and mutates: \<open>drivers\<close> is the caller's list object
  (driver addresses in list order, the only thing the shuffle changes), \<open>dstore\<close> and
  \<open>pstore\<close> hold the driver and passenger objects by address, \<open>match_details\<close> is the
  local result list.
\<close>

record state =
  drivers :: "nat list"
  dstore :: "driver list"
  pstore :: "passenger list"
  match_details :: "match_detail list"

text \<open>The caller's driver list as the sequence of the driver objects it refers to.\<close>

definition drivers_list :: "state \<Rightarrow> driver list" where
  "drivers_list s = map (\<lambda>a. dstore s ! a) (drivers s)"

text \<open>
  The body of the first double loop: the verdict of one driver on one passenger, with
  every failing rule appended in the source's order.
\<close>

definition verdict :: "driver \<Rightarrow> passenger \<Rightarrow> rejection" where
  "verdict d p =
     (let dist_origin = haversine (origin d) (origin p);
          dist_dest = haversine (dest d) (dest p);
          rs = (if dist_origin > SEARCH_RADIUS_KM then [Origin_too_far dist_origin] else [])
             @ (if dist_dest > SEARCH_RADIUS_KM then [Destination_too_far dist_dest] else [])
             @ (if \<bar>schedule d - schedule p\<bar> > 1
                then [Schedule_mismatch (schedule d) (schedule p)] else [])
      in \<lparr>driver_id = ident d, driver_name = name d,
          rej_pickup_distance = dist_origin, rej_dropoff_distance = dist_dest,
          reasons = rs, is_compatible = (length rs = 0), matched = None\<rparr>)"

text \<open>\<^verbatim>\<open>p.rejection_reasons = []\<close> followed by one append per driver, in list order.\<close>

definition record_rejections :: "driver list \<Rightarrow> passenger \<Rightarrow> passenger" where
  "record_rejections ds p = p\<lparr>rejection_reasons := map (\<lambda>d. verdict d p) ds\<rparr>"

text \<open>
  The body of the candidate loop for the passenger at address \<open>i\<close>: each
  \<^verbatim>\<open>continue\<close> is \<open>None\<close>, the appended tuple is \<open>Some\<close>.
\<close>

definition candidate :: "driver \<Rightarrow> passenger list \<Rightarrow> nat \<Rightarrow> (nat \<times> real \<times> real) option" where
  "candidate drv ps i =
     (let p = ps ! i in
      if matched_driver p \<noteq> None then None
      else let dist_origin = haversine (origin drv) (origin p) in
        if dist_origin > SEARCH_RADIUS_KM then None
        else let dist_dest = haversine (dest drv) (dest p) in
          if dist_dest > SEARCH_RADIUS_KM then None
          else if \<bar>schedule drv - schedule p\<bar> > 1 then None
          else Some (i, dist_origin, dist_dest))"

definition candidates :: "driver \<Rightarrow> passenger list \<Rightarrow> (nat \<times> real \<times> real) list" where
  "candidates drv ps = List.map_filter (candidate drv ps) [0..<length ps]"

text \<open>\<^verbatim>\<open>key=lambda x: x[1] + x[2]\<close>\<close>

definition rank_key :: "nat \<times> real \<times> real \<Rightarrow> real" where
  "rank_key x = fst (snd x) + snd (snd x)"

text \<open>
  \<^verbatim>\<open>xs[:n]\<close> for a Python int \<open>n\<close>: a negative bound counts from the end.
\<close>

definition slice_to :: "'a list \<Rightarrow> int \<Rightarrow> 'a list" where
  "slice_to xs n = (if 0 \<le> n then take (nat n) xs else take (nat (int (length xs) + n)) xs)"

text \<open>
  The candidates of the driver at address \<open>a\<close>, sorted (Python's sort is stable, as
  \<open>sort_key\<close> is) and cut to the open seats.
\<close>

definition selected :: "nat \<Rightarrow> state \<Rightarrow> (nat \<times> real \<times> real) list" where
  "selected a s =
     (let drv = dstore s ! a;
          cands = sort_key rank_key (candidates drv (pstore s));
          slots = capacity drv
      in slice_to cands slots)"

text \<open>The body of the assignment loop, for one selected tuple.\<close>

definition assign :: "nat \<Rightarrow> nat \<times> real \<times> real \<Rightarrow> state \<Rightarrow> state" where
  "assign a p_tuple s =
     (case p_tuple of (i, dist_origin, dist_dest) \<Rightarrow>
        let ride_cost = real_of_int PRICE_BASE / 4 + real_of_int PRICE_BASE * MARKUP_PERCENT;
            p = pstore s ! i;
            drv = dstore s ! a
        in s\<lparr>pstore := (pstore s)[i := p\<lparr>matched_driver := Some a,
                                          pickup_distance := Some dist_origin,
                                          dropoff_distance := Some dist_dest,
                                          fare := ride_cost\<rparr>],
             dstore := (dstore s)[a := drv\<lparr>passengers := passengers drv @ [i],
                                           capacity := capacity drv - 1\<rparr>],
             match_details := match_details s @
               [\<lparr>md_driver = a, md_passenger = i, pickup_dist = dist_origin,
                 dropoff_dist = dist_dest, md_fare = ride_cost\<rparr>]\<rparr>)"

text \<open>One turn of the driver loop.\<close>

definition process_driver :: "nat \<Rightarrow> state \<Rightarrow> state" where
  "process_driver a s =
     (if capacity (dstore s ! a) = 0 then s
      else fold (assign a) (selected a s) s)"

text \<open>
  The last loop: only a passenger with a matched driver has the \<^verbatim>\<open>'matched'\<close> key
  written into its entries (a \<^verbatim>\<open>Driver\<close> object is always truthy).
\<close>

definition refresh_matched :: "driver list \<Rightarrow> passenger \<Rightarrow> passenger" where
  "refresh_matched ds p =
     (case matched_driver p of
        None \<Rightarrow> p
      | Some a \<Rightarrow>
          p\<lparr>rejection_reasons :=
              map (\<lambda>r. r\<lparr>matched := Some (driver_id r = ident (ds ! a))\<rparr>)
                  (rejection_reasons p)\<rparr>)"

text \<open>
  The state when \<^verbatim>\<open>match_algorithm\<close> is entered, the state after the rejection pass
  and the shuffle, and the whole run. \<^verbatim>\<open>random.shuffle(drivers)\<close> is the parameter
  \<open>shuffle\<close>: the function from the list before to the list after that the random
  source of the run determines; a shuffle permutes, which the theorems that need it
  assume as \<open>mset (shuffle xs) = mset xs\<close> for the driver list. The source returns
  \<open>match_details\<close> and leaves the rest in the mutated objects; the model returns the
  final state, which holds both.
\<close>

definition entry_state :: "driver list \<Rightarrow> passenger list \<Rightarrow> state" where
  "entry_state ds ps =
     \<lparr>drivers = [0..<length ds], dstore = ds, pstore = ps, match_details = []\<rparr>"

definition shuffled_state :: "(nat list \<Rightarrow> nat list) \<Rightarrow> driver list \<Rightarrow> passenger list \<Rightarrow> state" where
  "shuffled_state shuffle ds ps =
     \<lparr>drivers = shuffle [0..<length ds], dstore = ds,
      pstore = map (record_rejections ds) ps, match_details = []\<rparr>"

definition driver_loop :: "state \<Rightarrow> state" where
  "driver_loop s = fold process_driver (drivers s) s"

definition refresh_all :: "state \<Rightarrow> state" where
  "refresh_all s = s\<lparr>pstore := map (refresh_matched (dstore s)) (pstore s)\<rparr>"

definition match_algorithm :: "(nat list \<Rightarrow> nat list) \<Rightarrow> driver list \<Rightarrow> passenger list \<Rightarrow> state" where
  "match_algorithm shuffle ds ps = refresh_all (driver_loop (shuffled_state shuffle ds ps))"

section \<open>The run with the library sort as a parameter\<close>






section \<open>The states a run goes through\<close>

text \<open>
  The states after each element of a loop whose body is \<open>f\<close>: \<open>fold f xs s\<close> is the
  last of them.
\<close>

fun steps :: "('a \<Rightarrow> 's \<Rightarrow> 's) \<Rightarrow> 'a list \<Rightarrow> 's \<Rightarrow> 's list" where
  "steps f [] s = []"
| "steps f (x # xs) s = f x s # steps f xs (f x s)"

text \<open>
  The states after each single assignment of one driver's turn, of the whole driver
  loop, and of a run: the state at entry, the state after the rejection pass and the
  shuffle, the state after every assignment, and the returned state.
\<close>

definition process_trace :: "nat \<Rightarrow> state \<Rightarrow> state list" where
  "process_trace a s =
     (if capacity (dstore s ! a) = 0 then []
      else steps (assign a) (selected a s) s)"

fun loop_trace :: "nat list \<Rightarrow> state \<Rightarrow> state list" where
  "loop_trace [] s = []"
| "loop_trace (a # as) s = process_trace a s @ loop_trace as (process_driver a s)"

definition match_trace :: "(nat list \<Rightarrow> nat list) \<Rightarrow> driver list \<Rightarrow> passenger list \<Rightarrow> state list" where
  "match_trace shuffle ds ps =
     (let s = shuffled_state shuffle ds ps
      in entry_state ds ps # s # loop_trace (drivers s) s @ [match_algorithm shuffle ds ps])"

section \<open>Statistics\<close>

datatype py_error = ZeroDivisionError

text \<open>Python's \<^verbatim>\<open>/\<close> on numbers.\<close>

definition truediv :: "real \<Rightarrow> real \<Rightarrow> py_error + real" where
  "truediv x y = (if y = 0 then Inl ZeroDivisionError else Inr (x / y))"

text \<open>An exception leaves the enclosing function at once.\<close>

definition then_err :: "py_error + 'a \<Rightarrow> ('a \<Rightarrow> py_error + 'b) \<Rightarrow> py_error + 'b" where
  "then_err r f = (case r of Inl e \<Rightarrow> Inl e | Inr v \<Rightarrow> f v)"

text \<open>
  The \<^verbatim>\<open>'statistics'\<close> entry of the dict that \<^verbatim>\<open>export_visualization_data\<close>
  builds, over the driver and passenger objects in list order. The entries built before
  it read fields only; the division is the one operation of the function that depends
  on the list sizes.
\<close>

record statistics =
  total_drivers :: nat
  total_passengers :: nat
  matched_passengers :: nat
  full_cars :: nat
  active_cars :: nat
  fleet_occupancy :: real
  total_revenue :: real

definition export_statistics :: "driver list \<Rightarrow> passenger list \<Rightarrow> py_error + statistics" where
  "export_statistics ds ps =
     then_err
       (truediv (real (sum_list (map (\<lambda>d. length (passengers d)) ds)))
                (real_of_int (int (length ds) * MAX_CAPACITY)))
       (\<lambda>q. Inr
          \<lparr>total_drivers = length ds,
           total_passengers = length ps,
           matched_passengers = length (filter (\<lambda>p. matched_driver p \<noteq> None) ps),
           full_cars = length (filter (\<lambda>d. int (length (passengers d)) = MAX_CAPACITY) ds),
           active_cars = length (filter (\<lambda>d. length (passengers d) > 0) ds),
           fleet_occupancy = q * 100,
           total_revenue = sum_list (map fare (filter (\<lambda>p. matched_driver p \<noteq> None) ps))\<rparr>)"

text \<open>
  \<^verbatim>\<open>print_matching_results\<close>: the numbers it prints, in the order it computes them
  (the \<^verbatim>\<open>:.1f\<close> rendering is left out). Each percentage is computed inside the
  \<^verbatim>\<open>print\<close> call that shows it, so the first failing division ends the function.
\<close>

record report =
  matched_percent :: real
  unmatched_percent :: real
  full_percent :: real
  cars_with_3_percent :: real
  cars_with_2_percent :: real
  cars_with_1_percent :: real
  empty_percent :: real
  active_percent :: real
  total_capacity :: int
  used_capacity :: nat
  report_fleet_occupancy :: real

definition cars_with :: "driver list \<Rightarrow> nat \<Rightarrow> nat" where
  "cars_with ds k = length (filter (\<lambda>d. length (passengers d) = k) ds)"

definition percent_of :: "nat \<Rightarrow> nat \<Rightarrow> py_error + real" where
  "percent_of k n = then_err (truediv (real k) (real n)) (\<lambda>q. Inr (q * 100))"

definition print_matching_results :: "driver list \<Rightarrow> passenger list \<Rightarrow> py_error + report" where
  "print_matching_results ds ps =
     (let matched_ps = filter (\<lambda>p. matched_driver p \<noteq> None) ps;
          unmatched_ps = filter (\<lambda>p. matched_driver p = None) ps;
          full = length (filter (\<lambda>d. int (length (passengers d)) = MAX_CAPACITY) ds);
          active = length (filter (\<lambda>d. length (passengers d) > 0) ds)
      in
      then_err (percent_of (length matched_ps) (length ps)) (\<lambda>mp.
      then_err (percent_of (length unmatched_ps) (length ps)) (\<lambda>up.
      then_err (percent_of full (length ds)) (\<lambda>fp.
      then_err (percent_of (cars_with ds 3) (length ds)) (\<lambda>p3.
      then_err (percent_of (cars_with ds 2) (length ds)) (\<lambda>p2.
      then_err (percent_of (cars_with ds 1) (length ds)) (\<lambda>p1.
      then_err (percent_of (cars_with ds 0) (length ds)) (\<lambda>p0.
      then_err (percent_of active (length ds)) (\<lambda>ap.
        let total = int (length ds) * MAX_CAPACITY;
            used = length matched_ps;
            occ = (if total > 0 then real used / real_of_int total * 100 else 0)
        in Inr \<lparr>matched_percent = mp, unmatched_percent = up, full_percent = fp,
                 cars_with_3_percent = p3, cars_with_2_percent = p2,
                 cars_with_1_percent = p1, empty_percent = p0, active_percent = ap,
                 total_capacity = total, used_capacity = used,
                 report_fleet_occupancy = occ\<rparr>)))))))))"

section \<open>Properties of states\<close>

text \<open>
  The seats of a driver add up: open seats plus assigned passengers are the vehicle's
  capacity, and the open seats are not negative.
\<close>

definition seats_ok :: "driver \<Rightarrow> bool" where
  "seats_ok d \<longleftrightarrow> capacity d + int (length (passengers d)) = MAX_CAPACITY \<and> 0 \<le> capacity d"

text \<open>
  A match record respects the constraints: its references are addresses of the pools,
  its distances are the distances between the two objects and within the search radius,
  and the schedules are at most one hour apart.
\<close>

definition sound_match :: "driver list \<Rightarrow> passenger list \<Rightarrow> match_detail \<Rightarrow> bool" where
  "sound_match ds ps m \<longleftrightarrow>
     md_driver m < length ds \<and> md_passenger m < length ps
     \<and> pickup_dist m = haversine (origin (ds ! md_driver m)) (origin (ps ! md_passenger m))
     \<and> pickup_dist m \<le> SEARCH_RADIUS_KM
     \<and> dropoff_dist m = haversine (dest (ds ! md_driver m)) (dest (ps ! md_passenger m))
     \<and> dropoff_dist m \<le> SEARCH_RADIUS_KM
     \<and> \<bar>schedule (ds ! md_driver m) - schedule (ps ! md_passenger m)\<bar> \<le> 1"

text \<open>
  From state \<open>s\<close> to state \<open>t\<close> no passenger's \<open>matched_driver\<close> is cleared or
  changed: whoever has a driver in \<open>s\<close> has the same driver in \<open>t\<close>.
\<close>

definition keeps_match :: "state \<Rightarrow> state \<Rightarrow> bool" where
  "keeps_match s t \<longleftrightarrow>
     length (pstore t) = length (pstore s)
     \<and> (\<forall>k < length (pstore s). \<forall>d. matched_driver (pstore s ! k) = Some d
            \<longrightarrow> matched_driver (pstore t ! k) = Some d)"

text \<open>
  No passenger occurs in two match records, and every passenger of a match record has
  a driver.
\<close>

definition once_only :: "state \<Rightarrow> bool" where
  "once_only s \<longleftrightarrow>
     distinct (map md_passenger (match_details s))
     \<and> (\<forall>m \<in> set (match_details s). md_passenger m < length (pstore s)
            \<and> matched_driver (pstore s ! md_passenger m) \<noteq> None)"

text \<open>A passenger's fare is 0 while unmatched and the ride cost once matched.\<close>

definition fare_settled :: "passenger \<Rightarrow> bool" where
  "fare_settled p \<longleftrightarrow> fare p = (if matched_driver p = None then 0 else 45)"

section \<open>A small population\<close>

text \<open>
  Two drivers on the same route, leaving at 8 and at 9; three passengers at the drivers'
  origin: one leaving at 8, one leaving at 10, and one whose destination is one degree
  of longitude (about 111 km) away from the drivers' destination.
\<close>

definition ex_drivers :: "driver list" where
  "ex_drivers = [Driver 0 (0, 0) (0, 1) ''Ali_0'' 8, Driver 1 (0, 0) (0, 1) ''Sara_1'' 9]"

definition ex_passengers :: "passenger list" where
  "ex_passengers =
     [Passenger 0 (0, 0) (0, 1) ''Reza_0'' 8,
      Passenger 1 (0, 0) (0, 1) ''Mina_1'' 10,
      Passenger 2 (0, 0) (0, 0) ''Amir_2'' 8]"

section \<open>The population of the full-capacity scenario\<close>

text \<open>
  The longitude, in degrees, of the point of the equator that lies \<open>x\<close> km east of
  \<open>(0, 0)\<close>.
\<close>

definition km_east :: "real \<Rightarrow> real" where
  "km_east x = x * 180 / (6371 * pi)"

text \<open>
  One driver from \<open>(0, 0)\<close> to \<open>(0, 1)\<close> leaving at 8 with two open seats, and three
  passengers leaving at 8 whose origins are 0.2 km, 0.5 km and 0.9 km from the driver's
  origin and whose destination is the driver's.
\<close>

definition sc_driver :: driver where
  "sc_driver = (Driver 0 (0, 0) (0, 1) ''Ali_0'' 8)\<lparr>capacity := 2\<rparr>"

definition sc_passengers :: "passenger list" where
  "sc_passengers =
     [Passenger 0 (0, km_east (2 / 10)) (0, 1) ''Sara_0'' 8,
      Passenger 1 (0, km_east (5 / 10)) (0, 1) ''Reza_1'' 8,
      Passenger 2 (0, km_east (9 / 10)) (0, 1) ''Mina_2'' 8]"

text \<open>
  The same three passengers, the first with a destination 0.9 km east of the driver's:
  the pickup plus drop-off distances are 1.1 km, 0.5 km and 0.9 km.
\<close>

definition sc_detour_passengers :: "passenger list" where
  "sc_detour_passengers =
     [Passenger 0 (0, km_east (2 / 10)) (0, 1 + km_east (9 / 10)) ''Sara_0'' 8,
      Passenger 1 (0, km_east (5 / 10)) (0, 1) ''Reza_1'' 8,
      Passenger 2 (0, km_east (9 / 10)) (0, 1) ''Mina_2'' 8]"

section \<open>Lists\<close>

lemma map_update_same: "f v = f (xs ! i) \<Longrightarrow> map f (xs[i := v]) = map f xs"
  by (metis list_update_id map_update)

lemma steps_length: "length (steps f xs s) = length xs"
  by (induction xs arbitrary: s) simp_all

lemma steps_last: "last (s # steps f xs s) = fold f xs s"
  by (induction xs arbitrary: s) simp_all

lemma steps_prefix: "t \<in> set (steps f xs s) \<Longrightarrow> \<exists>k. t = fold f (take k xs) s"
proof (induction xs arbitrary: s)
  case Nil
  then show ?case by simp
next
  case (Cons x xs)
  from Cons.prems have "t = f x s \<or> t \<in> set (steps f xs (f x s))" by simp
  then show ?case
  proof
    assume "t = f x s"
    then have "t = fold f (take (Suc 0) (x # xs)) s" by simp
    then show ?thesis by blast
  next
    assume "t \<in> set (steps f xs (f x s))"
    then obtain k where "t = fold f (take k xs) (f x s)" using Cons.IH by blast
    then have "t = fold f (take (Suc k) (x # xs)) s" by simp
    then show ?thesis by blast
  qed
qed

lemma steps_nth: "k < length xs \<Longrightarrow> steps f xs s ! k = fold f (take (Suc k) xs) s"
proof (induction xs arbitrary: s k)
  case Nil
  then show ?case by simp
next
  case (Cons x xs)
  then show ?case by (cases k) simp_all
qed

section \<open>One assignment\<close>

lemma drivers_assign: "drivers (assign a c s) = drivers s"
  by (cases c) (simp add: assign_def Let_def)

lemma dstore_assign:
  "dstore (assign a c s) =
     (dstore s)[a := (dstore s ! a)\<lparr>passengers := passengers (dstore s ! a) @ [fst c],
                                    capacity := capacity (dstore s ! a) - 1\<rparr>]"
  by (cases c) (simp add: assign_def Let_def)

lemma pstore_assign:
  "pstore (assign a c s) =
     (pstore s)[fst c := (pstore s ! fst c)\<lparr>matched_driver := Some a,
        pickup_distance := Some (fst (snd c)), dropoff_distance := Some (snd (snd c)),
        fare := 45\<rparr>]"
  by (cases c) (simp add: assign_def Let_def PRICE_BASE_def MARKUP_PERCENT_def)

lemma match_details_assign:
  "match_details (assign a c s) = match_details s @
     [\<lparr>md_driver = a, md_passenger = fst c, pickup_dist = fst (snd c),
       dropoff_dist = snd (snd c), md_fare = 45\<rparr>]"
  by (cases c) (simp add: assign_def Let_def PRICE_BASE_def MARKUP_PERCENT_def)

section \<open>A run of assignments\<close>

lemma drivers_fold_assign: "drivers (fold (assign a) cs s) = drivers s"
  by (induction cs arbitrary: s) (simp_all add: drivers_assign)

lemma match_details_fold_assign:
  "match_details (fold (assign a) cs s) = match_details s @
     map (\<lambda>c. \<lparr>md_driver = a, md_passenger = fst c, pickup_dist = fst (snd c),
                dropoff_dist = snd (snd c), md_fare = 45\<rparr>) cs"
  by (induction cs arbitrary: s) (simp_all add: match_details_assign)

lemma users_dstore_fold_assign:
  "map user.truncate (dstore (fold (assign a) cs s)) = map user.truncate (dstore s)"
  by (induction cs arbitrary: s) (simp_all add: dstore_assign map_update_same user.truncate_def)

lemma users_pstore_fold_assign:
  "map user.truncate (pstore (fold (assign a) cs s)) = map user.truncate (pstore s)"
  by (induction cs arbitrary: s) (simp_all add: pstore_assign map_update_same user.truncate_def)

lemma rejections_fold_assign:
  "map rejection_reasons (pstore (fold (assign a) cs s)) = map rejection_reasons (pstore s)"
  by (induction cs arbitrary: s) (simp_all add: pstore_assign map_update_same)

lemma length_dstore_fold_assign: "length (dstore (fold (assign a) cs s)) = length (dstore s)"
  using users_dstore_fold_assign [of a cs s] by (metis length_map)

lemma length_pstore_fold_assign: "length (pstore (fold (assign a) cs s)) = length (pstore s)"
  using users_pstore_fold_assign [of a cs s] by (metis length_map)

lemma dstore_fold_assign:
  "a < length (dstore s) \<Longrightarrow>
   dstore (fold (assign a) cs s) =
     (dstore s)[a := (dstore s ! a)\<lparr>passengers := passengers (dstore s ! a) @ map fst cs,
                                    capacity := capacity (dstore s ! a) - int (length cs)\<rparr>]"
proof (induction cs arbitrary: s)
  case Nil
  then show ?case by simp
next
  case (Cons c cs)
  have len: "a < length (dstore (assign a c s))"
    using Cons.prems by (simp add: dstore_assign)
  show ?case
    using Cons.prems by (simp add: Cons.IH [OF len]) (simp add: dstore_assign diff_diff_eq)
qed

lemma matched_fold_assign:
  "k < length (pstore s) \<Longrightarrow>
   matched_driver (pstore (fold (assign a) cs s) ! k) =
     (if k \<in> fst ` set cs then Some a else matched_driver (pstore s ! k))"
proof (induction cs arbitrary: s)
  case Nil
  then show ?case by simp
next
  case (Cons c cs)
  have len: "k < length (pstore (assign a c s))"
    using Cons.prems by (simp add: pstore_assign)
  show ?case
    using Cons.prems by (simp add: Cons.IH [OF len]) (auto simp add: pstore_assign nth_list_update)
qed

lemma fare_fold_assign:
  "k < length (pstore s) \<Longrightarrow>
   fare (pstore (fold (assign a) cs s) ! k) =
     (if k \<in> fst ` set cs then 45 else fare (pstore s ! k))"
proof (induction cs arbitrary: s)
  case Nil
  then show ?case by simp
next
  case (Cons c cs)
  have len: "k < length (pstore (assign a c s))"
    using Cons.prems by (simp add: pstore_assign)
  show ?case
    using Cons.prems by (simp add: Cons.IH [OF len]) (auto simp add: pstore_assign nth_list_update)
qed

section \<open>Candidates\<close>

lemma candidate_Some:
  "candidate drv ps i = Some c \<longleftrightarrow>
     matched_driver (ps ! i) = None
     \<and> haversine (origin drv) (origin (ps ! i)) \<le> SEARCH_RADIUS_KM
     \<and> haversine (dest drv) (dest (ps ! i)) \<le> SEARCH_RADIUS_KM
     \<and> \<bar>schedule drv - schedule (ps ! i)\<bar> \<le> 1
     \<and> c = (i, haversine (origin drv) (origin (ps ! i)), haversine (dest drv) (dest (ps ! i)))"
  by (auto simp add: candidate_def Let_def)

lemma candidate_None:
  "candidate drv ps i = None \<longleftrightarrow>
     \<not> (matched_driver (ps ! i) = None
     \<and> haversine (origin drv) (origin (ps ! i)) \<le> SEARCH_RADIUS_KM
     \<and> haversine (dest drv) (dest (ps ! i)) \<le> SEARCH_RADIUS_KM
     \<and> \<bar>schedule drv - schedule (ps ! i)\<bar> \<le> 1)"
  by (auto simp add: candidate_def Let_def)

lemma candidate_fst: "candidate drv ps i = Some c \<Longrightarrow> fst c = i"
  by (auto simp add: candidate_def Let_def split: if_splits)

lemma in_candidates:
  "c \<in> set (candidates drv ps) \<longleftrightarrow> fst c < length ps \<and> candidate drv ps (fst c) = Some c"
proof
  assume "c \<in> set (candidates drv ps)"
  then obtain i where i: "i < length ps" "candidate drv ps i \<noteq> None" "c = the (candidate drv ps i)"
    by (auto simp add: candidates_def List.map_filter_def)
  then have "candidate drv ps i = Some c" by auto
  moreover from this have "fst c = i" by (rule candidate_fst)
  ultimately show "fst c < length ps \<and> candidate drv ps (fst c) = Some c"
    using i(1) by simp
next
  assume r: "fst c < length ps \<and> candidate drv ps (fst c) = Some c"
  obtain i x y where c: "c = (i, x, y)" by (cases c)
  from r c have i: "i < length ps" and ci: "candidate drv ps i = Some (i, x, y)"
    by simp_all
  from i ci have "i \<in> set (filter (\<lambda>x. candidate drv ps x \<noteq> None) [0..<length ps])"
    by simp
  then have "(the \<circ> candidate drv ps) i \<in> set (candidates drv ps)"
    unfolding candidates_def List.map_filter_def set_map by (rule imageI)
  with ci c show "c \<in> set (candidates drv ps)" by simp
qed

lemma map_fst_candidates:
  "map fst (candidates drv ps) = filter (\<lambda>i. candidate drv ps i \<noteq> None) [0..<length ps]"
proof -
  have "map (fst \<circ> (the \<circ> candidate drv ps)) (filter (\<lambda>i. candidate drv ps i \<noteq> None) xs)
        = filter (\<lambda>i. candidate drv ps i \<noteq> None) xs" for xs
  proof (induction xs)
    case Nil
    then show ?case by simp
  next
    case (Cons x xs)
    show ?case
    proof (cases "candidate drv ps x")
      case None
      then show ?thesis using Cons.IH by simp
    next
      case (Some c)
      then show ?thesis using Cons.IH candidate_fst [OF Some] by simp
    qed
  qed
  then show ?thesis
    by (simp add: candidates_def List.map_filter_def)
qed

lemma set_selected: "set (selected a s) \<subseteq> set (candidates (dstore s ! a) (pstore s))"
proof -
  have "set (slice_to xs n) \<subseteq> set xs" for xs :: "(nat \<times> real \<times> real) list" and n
    by (simp add: slice_to_def set_take_subset)
  from this [of "sort_key rank_key (candidates (dstore s ! a) (pstore s))" "capacity (dstore s ! a)"]
  show ?thesis by (simp add: selected_def Let_def)
qed

lemma length_selected:
  "0 \<le> capacity (dstore s ! a) \<Longrightarrow> int (length (selected a s)) \<le> capacity (dstore s ! a)"
  by (simp add: selected_def Let_def slice_to_def)

lemma selected_capacity_0: "capacity (dstore s ! a) = 0 \<Longrightarrow> selected a s = []"
  by (simp add: selected_def Let_def slice_to_def)

lemma process_driver_fold: "process_driver a s = fold (assign a) (selected a s) s"
  by (simp add: process_driver_def selected_capacity_0)

lemma process_driver_prefix: "\<exists>k. process_driver a s = fold (assign a) (take k (selected a s)) s"
proof -
  have "process_driver a s = fold (assign a) (take (length (selected a s)) (selected a s)) s"
    by (simp add: process_driver_fold)
  then show ?thesis by blast
qed

lemma process_trace_prefix:
  "t \<in> set (process_trace a s) \<Longrightarrow> \<exists>k. t = fold (assign a) (take k (selected a s)) s"
  by (cases "capacity (dstore s ! a) = 0") (simp_all add: process_trace_def steps_prefix)

section \<open>Frame\<close>

lemma truncate_fields:
  "user.truncate x = user.truncate y \<Longrightarrow>
   ident x = ident y \<and> name x = name y \<and> origin x = origin y \<and> dest x = dest y
   \<and> schedule x = schedule y"
  by (simp add: user.truncate_def)

lemma users_nth:
  "map user.truncate xs = map user.truncate ys \<Longrightarrow> i < length xs \<Longrightarrow>
   user.truncate (xs ! i) = user.truncate (ys ! i)"
  by (metis length_map nth_map)

lemma users_length: "map user.truncate xs = map user.truncate ys \<Longrightarrow> length xs = length ys"
  by (metis length_map)

lemma sound_match_users:
  assumes "map user.truncate ds = map user.truncate ds'"
      and "map user.truncate ps = map user.truncate ps'"
  shows "sound_match ds ps m = sound_match ds' ps' m"
proof -
  have ld: "length ds = length ds'"
    using assms(1) by (rule users_length)
  have lp: "length ps = length ps'"
    using assms(2) by (rule users_length)
  show ?thesis
  proof (cases "md_driver m < length ds \<and> md_passenger m < length ps")
    case True
    then have "user.truncate (ds ! md_driver m) = user.truncate (ds' ! md_driver m)"
      and "user.truncate (ps ! md_passenger m) = user.truncate (ps' ! md_passenger m)"
      using assms users_nth by blast+
    then have d: "origin (ds ! md_driver m) = origin (ds' ! md_driver m)"
        "dest (ds ! md_driver m) = dest (ds' ! md_driver m)"
        "schedule (ds ! md_driver m) = schedule (ds' ! md_driver m)"
      and p: "origin (ps ! md_passenger m) = origin (ps' ! md_passenger m)"
        "dest (ps ! md_passenger m) = dest (ps' ! md_passenger m)"
        "schedule (ps ! md_passenger m) = schedule (ps' ! md_passenger m)"
      using truncate_fields by blast+
    show ?thesis
      unfolding sound_match_def d p ld lp ..
  next
    case False
    then show ?thesis unfolding sound_match_def ld lp by blast
  qed
qed

section \<open>The driver loop\<close>

lemma loop_invariant:
  assumes step: "\<And>a s k. a \<in> set as \<Longrightarrow> P s \<Longrightarrow> P (fold (assign a) (take k (selected a s)) s)"
      and init: "P s"
  shows "P (fold process_driver as s) \<and> (\<forall>t \<in> set (loop_trace as s). P t)"
  using assms
proof (induction as arbitrary: s)
  case Nil
  then show ?case by simp
next
  case (Cons a as)
  have turn: "P (fold (assign a) (take k (selected a s)) s)" for k
    using Cons.prems by simp
  have 1: "P (process_driver a s)"
    using process_driver_prefix [of a s] turn by auto
  have 2: "\<forall>t \<in> set (process_trace a s). P t"
    using process_trace_prefix [of _ a s] turn by auto
  have 3: "P (fold process_driver as (process_driver a s)) \<and>
           (\<forall>t \<in> set (loop_trace as (process_driver a s)). P t)"
    using Cons.IH [of "process_driver a s"] Cons.prems(1) 1 by simp
  from 2 3 show ?case by auto
qed

text \<open>The result of the driver loop is the last state of its trace.\<close>

lemma loop_last: "last (s # loop_trace as s) = fold process_driver as s"
proof (induction as arbitrary: s)
  case Nil
  then show ?case by simp
next
  case (Cons a as)
  have "last (s # process_trace a s) = process_driver a s"
  proof (cases "capacity (dstore s ! a) = 0")
    case True
    then show ?thesis by (simp add: process_trace_def process_driver_def)
  next
    case False
    then show ?thesis
      by (simp add: process_trace_def process_driver_def steps_last del: last.simps)
  qed
  then have "last (s # process_trace a s @ loop_trace as (process_driver a s))
      = last (process_driver a s # loop_trace as (process_driver a s))"
    by (cases "loop_trace as (process_driver a s) = []") (simp_all add: last_append)
  then show ?case using Cons.IH [of "process_driver a s"] by simp
qed

lemma loop_frame:
  "drivers (fold process_driver as s) = drivers s
   \<and> map user.truncate (dstore (fold process_driver as s)) = map user.truncate (dstore s)
   \<and> map user.truncate (pstore (fold process_driver as s)) = map user.truncate (pstore s)
   \<and> map rejection_reasons (pstore (fold process_driver as s)) = map rejection_reasons (pstore s)"
proof -
  let ?P = "\<lambda>t::state. drivers t = drivers s
    \<and> map user.truncate (dstore t) = map user.truncate (dstore s)
    \<and> map user.truncate (pstore t) = map user.truncate (pstore s)
    \<and> map rejection_reasons (pstore t) = map rejection_reasons (pstore s)"
  have "?P (fold process_driver as s) \<and> (\<forall>t \<in> set (loop_trace as s). ?P t)"
    by (rule loop_invariant)
       (simp_all add: drivers_fold_assign users_dstore_fold_assign users_pstore_fold_assign
          rejections_fold_assign)
  then show ?thesis by simp
qed

section \<open>Sound matches\<close>

lemma selected_sound:
  assumes a: "a < length (dstore s)" and c: "c \<in> set (selected a s)"
  shows "sound_match (dstore s) (pstore s)
           \<lparr>md_driver = a, md_passenger = fst c, pickup_dist = fst (snd c),
            dropoff_dist = snd (snd c), md_fare = x\<rparr>"
proof -
  from c have "c \<in> set (candidates (dstore s ! a) (pstore s))"
    using set_selected by blast
  then have 1: "fst c < length (pstore s)"
    and 2: "candidate (dstore s ! a) (pstore s) (fst c) = Some c"
    by (simp_all add: in_candidates)
  obtain i y z where c: "c = (i, y, z)" by (cases c)
  from 2 have "candidate (dstore s ! a) (pstore s) i = Some (i, y, z)"
    unfolding c by simp
  then show ?thesis
    using a 1 unfolding c by (simp add: sound_match_def candidate_Some)
qed

lemma turn_sound:
  assumes a: "a < length (dstore s)"
      and inv: "\<forall>m \<in> set (match_details s). sound_match (dstore s) (pstore s) m"
  shows "\<forall>m \<in> set (match_details (fold (assign a) (take k (selected a s)) s)).
           sound_match (dstore (fold (assign a) (take k (selected a s)) s))
                       (pstore (fold (assign a) (take k (selected a s)) s)) m"
proof
  let ?t = "fold (assign a) (take k (selected a s)) s"
  fix m assume "m \<in> set (match_details ?t)"
  then have "m \<in> set (match_details s) \<or>
     (\<exists>c \<in> set (take k (selected a s)). m = \<lparr>md_driver = a, md_passenger = fst c,
        pickup_dist = fst (snd c), dropoff_dist = snd (snd c), md_fare = 45\<rparr>)"
    by (auto simp add: match_details_fold_assign)
  then have "sound_match (dstore s) (pstore s) m"
  proof
    assume "m \<in> set (match_details s)"
    with inv show ?thesis by simp
  next
    assume "\<exists>c \<in> set (take k (selected a s)). m = \<lparr>md_driver = a, md_passenger = fst c,
        pickup_dist = fst (snd c), dropoff_dist = snd (snd c), md_fare = 45\<rparr>"
    then obtain c where "c \<in> set (take k (selected a s))"
      and m: "m = \<lparr>md_driver = a, md_passenger = fst c,
        pickup_dist = fst (snd c), dropoff_dist = snd (snd c), md_fare = 45\<rparr>" by blast
    then have "c \<in> set (selected a s)" by (meson in_set_takeD)
    then show ?thesis unfolding m using a by (rule selected_sound [rotated])
  qed
  then show "sound_match (dstore ?t) (pstore ?t) m"
    using sound_match_users [OF users_dstore_fold_assign users_pstore_fold_assign] by simp
qed

lemma loop_sound:
  assumes "set as \<subseteq> {..<length (dstore s)}"
      and "\<forall>m \<in> set (match_details s). sound_match (dstore s) (pstore s) m"
  shows "\<forall>m \<in> set (match_details (fold process_driver as s)).
           sound_match (dstore s) (pstore s) m"
proof -
  let ?P = "\<lambda>t::state. length (dstore t) = length (dstore s)
     \<and> (\<forall>m \<in> set (match_details t). sound_match (dstore t) (pstore t) m)"
  have "?P (fold process_driver as s) \<and> (\<forall>t \<in> set (loop_trace as s). ?P t)"
  proof (rule loop_invariant)
    show "?P s" using assms by simp
  next
    fix a t k assume "a \<in> set as" and P: "?P t"
    then have a: "a < length (dstore t)" using assms(1) by auto
    show "?P (fold (assign a) (take k (selected a t)) t)"
      using turn_sound [OF a] P by (simp add: length_dstore_fold_assign)
  qed
  then show ?thesis
    using sound_match_users [of "dstore (fold process_driver as s)" "dstore s"
        "pstore (fold process_driver as s)" "pstore s"] loop_frame [of as s]
    by simp
qed

section \<open>Before and after the driver loop\<close>

lemma shuffled_state_simps:
  "drivers (shuffled_state shuffle ds ps) = shuffle [0..<length ds]"
  "dstore (shuffled_state shuffle ds ps) = ds"
  "pstore (shuffled_state shuffle ds ps) = map (record_rejections ds) ps"
  "match_details (shuffled_state shuffle ds ps) = []"
  by (simp_all add: shuffled_state_def)

lemma record_rejections_simps:
  "user.truncate (record_rejections ds p) = user.truncate p"
  "matched_driver (record_rejections ds p) = matched_driver p"
  "fare (record_rejections ds p) = fare p"
  "rejection_reasons (record_rejections ds p) = map (\<lambda>d. verdict d p) ds"
  by (simp_all add: record_rejections_def user.truncate_def)

lemma refresh_matched_simps:
  "user.truncate (refresh_matched ds p) = user.truncate p"
  "matched_driver (refresh_matched ds p) = matched_driver p"
  "fare (refresh_matched ds p) = fare p"
  by (simp_all add: refresh_matched_def user.truncate_def split: option.split)

lemma refresh_all_simps:
  "drivers (refresh_all s) = drivers s"
  "dstore (refresh_all s) = dstore s"
  "pstore (refresh_all s) = map (refresh_matched (dstore s)) (pstore s)"
  "match_details (refresh_all s) = match_details s"
  by (simp_all add: refresh_all_def)

lemma users_shuffled_state:
  "map user.truncate (pstore (shuffled_state shuffle ds ps)) = map user.truncate ps"
  by (simp add: shuffled_state_simps record_rejections_simps comp_def)

lemma users_refresh_all:
  "map user.truncate (pstore (refresh_all s)) = map user.truncate (pstore s)"
  by (simp add: refresh_all_simps refresh_matched_simps comp_def)

lemma shuffle_in_range:
  assumes "mset xs = mset [0..<n]"
  shows "set xs \<subseteq> {..<n}"
proof -
  have "set xs = set [0..<n]" using assms by (rule mset_eq_setD)
  then show ?thesis by auto
qed

lemma match_algorithm_users:
  "map user.truncate (dstore (match_algorithm shuffle ds ps)) = map user.truncate ds"
  "map user.truncate (pstore (match_algorithm shuffle ds ps)) = map user.truncate ps"
proof -
  let ?s = "shuffled_state shuffle ds ps"
  let ?t = "fold process_driver (drivers ?s) ?s"
  have t: "match_algorithm shuffle ds ps = refresh_all ?t"
    by (simp add: match_algorithm_def driver_loop_def)
  have "map user.truncate (dstore ?t) = map user.truncate (dstore ?s)"
    using loop_frame [of "drivers ?s" ?s] by blast
  then show "map user.truncate (dstore (match_algorithm shuffle ds ps)) = map user.truncate ds"
    unfolding t refresh_all_simps by (simp add: shuffled_state_simps)
  have "map user.truncate (pstore ?t) = map user.truncate (pstore ?s)"
    using loop_frame [of "drivers ?s" ?s] by blast
  then show "map user.truncate (pstore (match_algorithm shuffle ds ps)) = map user.truncate ps"
    unfolding t users_refresh_all users_shuffled_state .
qed

section \<open>Seats\<close>

lemma Driver_seats_ok: "seats_ok (Driver uid org dst nm sched)"
  by (simp add: seats_ok_def Driver_def MAX_CAPACITY_def)

lemma turn_seats:
  assumes a: "a < length (dstore s)"
      and inv: "\<forall>d \<in> set (dstore s). seats_ok d"
  shows "\<forall>d \<in> set (dstore (fold (assign a) (take k (selected a s)) s)). seats_ok d"
proof -
  let ?d = "dstore s ! a"
  let ?cs = "take k (selected a s)"
  let ?v = "?d\<lparr>passengers := passengers ?d @ map fst ?cs,
               capacity := capacity ?d - int (length ?cs)\<rparr>"
  have d: "seats_ok ?d" using a inv by simp
  then have "0 \<le> capacity ?d" by (simp add: seats_ok_def)
  then have "int (length (selected a s)) \<le> capacity ?d" by (rule length_selected)
  moreover have "length ?cs \<le> length (selected a s)" by simp
  ultimately have "int (length ?cs) \<le> capacity ?d" by linarith
  with d have v: "seats_ok ?v" by (simp add: seats_ok_def)
  have "set (dstore (fold (assign a) ?cs s)) \<subseteq> insert ?v (set (dstore s))"
    unfolding dstore_fold_assign [OF a] by (rule set_update_subset_insert)
  with v inv show ?thesis by blast
qed

lemma loop_seats:
  assumes "set as \<subseteq> {..<length (dstore s)}"
      and "\<forall>d \<in> set (dstore s). seats_ok d"
  shows "(\<forall>d \<in> set (dstore (fold process_driver as s)). seats_ok d)
         \<and> (\<forall>t \<in> set (loop_trace as s). \<forall>d \<in> set (dstore t). seats_ok d)"
proof -
  let ?P = "\<lambda>t::state. length (dstore t) = length (dstore s)
     \<and> (\<forall>d \<in> set (dstore t). seats_ok d)"
  have "?P (fold process_driver as s) \<and> (\<forall>t \<in> set (loop_trace as s). ?P t)"
  proof (rule loop_invariant)
    show "?P s" using assms by simp
  next
    fix a t k assume "a \<in> set as" and P: "?P t"
    then have a: "a < length (dstore t)" using assms(1) by auto
    show "?P (fold (assign a) (take k (selected a t)) t)"
      using turn_seats [OF a] P by (simp add: length_dstore_fold_assign)
  qed
  then show ?thesis by simp
qed

lemma match_trace_last: "last (match_trace shuffle ds ps) = match_algorithm shuffle ds ps"
  by (simp add: match_trace_def Let_def)

section \<open>Matches are kept\<close>

lemma keeps_match_refl: "keeps_match s s"
  by (simp add: keeps_match_def)

lemma keeps_match_trans: "keeps_match s t \<Longrightarrow> keeps_match t u \<Longrightarrow> keeps_match s u"
  by (simp add: keeps_match_def)

lemma transp_keeps_match: "transp keeps_match"
  by (rule transpI) (rule keeps_match_trans)

lemma sorted_wrt_join:
  assumes "transp K" and "sorted_wrt K (xs @ [m])" and "sorted_wrt K (m # ys)"
  shows "sorted_wrt K (xs @ ys)"
proof -
  have "K x y" if "x \<in> set xs" and "y \<in> set ys" for x y
  proof -
    have "K x m" using assms(2) that(1) by (simp add: sorted_wrt_append)
    moreover have "K m y" using assms(3) that(2) by simp
    ultimately show ?thesis using assms(1) by (meson transpD)
  qed
  then show ?thesis
    using assms(2,3) by (simp add: sorted_wrt_append)
qed

lemma steps_as_map:
  "steps f xs s = map (\<lambda>k. fold f (take (Suc k) xs) s) [0..<length xs]"
  by (rule nth_equalityI) (simp_all add: steps_length steps_nth)

lemma selected_unmatched:
  assumes "c \<in> set (selected a s)"
  shows "fst c < length (pstore s) \<and> matched_driver (pstore s ! fst c) = None"
proof -
  from assms have "c \<in> set (candidates (dstore s ! a) (pstore s))"
    using set_selected by blast
  then have 1: "fst c < length (pstore s)"
    and 2: "candidate (dstore s ! a) (pstore s) (fst c) = Some c"
    by (simp_all add: in_candidates)
  obtain i y z where c: "c = (i, y, z)" by (cases c)
  from 2 have "candidate (dstore s ! a) (pstore s) i = Some (i, y, z)"
    unfolding c by simp
  then show ?thesis
    using 1 unfolding c by (simp add: candidate_Some)
qed

lemma turn_keeps:
  assumes "j \<le> k"
  shows "keeps_match (fold (assign a) (take j (selected a s)) s)
                     (fold (assign a) (take k (selected a s)) s)"
proof -
  let ?sel = "selected a s"
  have sub: "set (take j ?sel) \<subseteq> set (take k ?sel)"
    using assms by (rule set_take_subset_set_take)
  have "matched_driver (pstore (fold (assign a) (take k ?sel) s) ! x) = Some d"
    if x: "x < length (pstore s)"
      and m: "matched_driver (pstore (fold (assign a) (take j ?sel) s) ! x) = Some d" for x d
  proof (cases "x \<in> fst ` set (take k ?sel)")
    case True
    then obtain c where c: "c \<in> set (take k ?sel)" "fst c = x" by auto
    then have "c \<in> set ?sel" by (meson in_set_takeD)
    then have "matched_driver (pstore s ! fst c) = None"
      by (simp add: selected_unmatched)
    then have un: "matched_driver (pstore s ! x) = None"
      using c(2) by simp
    have "x \<in> fst ` set (take j ?sel)"
    proof (rule ccontr)
      assume "x \<notin> fst ` set (take j ?sel)"
      then show False using m un x by (simp add: matched_fold_assign)
    qed
    then have "d = a" using m x by (simp add: matched_fold_assign)
    then show ?thesis using True x by (simp add: matched_fold_assign)
  next
    case False
    then have "x \<notin> fst ` set (take j ?sel)" using sub by blast
    then show ?thesis using False m x by (simp add: matched_fold_assign)
  qed
  then show ?thesis
    by (simp add: keeps_match_def length_pstore_fold_assign)
qed

lemma turn_chain: "sorted_wrt keeps_match (s # process_trace a s @ [process_driver a s])"
proof (cases "capacity (dstore s ! a) = 0")
  case True
  then show ?thesis
    by (simp add: process_trace_def process_driver_def keeps_match_refl)
next
  case False
  let ?sel = "selected a s"
  let ?g = "\<lambda>k. fold (assign a) (take k ?sel) s"
  have "s # process_trace a s @ [process_driver a s]
      = map ?g (0 # map Suc [0..<length ?sel] @ [length ?sel])"
    using False by (simp add: process_trace_def process_driver_def steps_as_map comp_def)
  moreover have "sorted_wrt (\<lambda>i j. keeps_match (?g i) (?g j))
      (0 # map Suc [0..<length ?sel] @ [length ?sel])"
  proof (rule sorted_wrt_mono_rel [where P = "(\<le>)"])
    show "sorted_wrt (\<le>) (0 # map Suc [0..<length ?sel] @ [length ?sel])"
      by (auto simp add: sorted_wrt_append sorted_wrt_map)
  next
    fix i j :: nat assume "i \<le> j"
    then show "keeps_match (?g i) (?g j)" by (rule turn_keeps)
  qed
  ultimately show ?thesis by (simp only: sorted_wrt_map)
qed

lemma loop_chain:
  "sorted_wrt keeps_match (s # loop_trace as s @ [fold process_driver as s])"
proof (induction as arbitrary: s)
  case Nil
  then show ?case by (simp add: keeps_match_refl)
next
  case (Cons a as)
  let ?s' = "process_driver a s"
  have 1: "sorted_wrt keeps_match ((s # process_trace a s) @ [?s'])"
    using turn_chain [of s a] by simp
  have 2: "sorted_wrt keeps_match (?s' # loop_trace as ?s' @ [fold process_driver as ?s'])"
    by (rule Cons.IH)
  have "sorted_wrt keeps_match
      ((s # process_trace a s) @ (loop_trace as ?s' @ [fold process_driver as ?s']))"
    using transp_keeps_match 1 2 by (rule sorted_wrt_join)
  then show ?case by simp
qed

lemma keeps_match_shuffled: "keeps_match (entry_state ds ps) (shuffled_state shuffle ds ps)"
  by (simp add: keeps_match_def entry_state_def shuffled_state_simps record_rejections_simps)

lemma keeps_match_refresh: "keeps_match s (refresh_all s)"
  by (simp add: keeps_match_def refresh_all_simps refresh_matched_simps)

lemma match_trace_chain: "sorted_wrt keeps_match (match_trace shuffle ds ps)"
proof -
  let ?s = "shuffled_state shuffle ds ps"
  let ?L = "fold process_driver (drivers ?s) ?s"
  have 1: "sorted_wrt keeps_match ([entry_state ds ps] @ [?s])"
    by (simp add: keeps_match_shuffled)
  have 2: "sorted_wrt keeps_match (?s # loop_trace (drivers ?s) ?s @ [?L])"
    by (rule loop_chain)
  have 3: "sorted_wrt keeps_match (([entry_state ds ps] @ ?s # loop_trace (drivers ?s) ?s) @ [?L])"
  proof -
    have "sorted_wrt keeps_match (([entry_state ds ps] @ [?s]) @ (loop_trace (drivers ?s) ?s @ [?L]))"
    proof -
      have a: "sorted_wrt keeps_match (([entry_state ds ps] @ [?s]) @ [?s])"
        using 1 by (simp add: keeps_match_refl)
      show ?thesis using transp_keeps_match a 2 by (rule sorted_wrt_join)
    qed
    then show ?thesis by simp
  qed
  have 4: "sorted_wrt keeps_match (?L # [refresh_all ?L])"
    by (simp add: keeps_match_refresh)
  have "sorted_wrt keeps_match
      (([entry_state ds ps] @ ?s # loop_trace (drivers ?s) ?s) @ [refresh_all ?L])"
    using transp_keeps_match 3 4 by (rule sorted_wrt_join)
  then show ?thesis
    by (simp add: match_trace_def Let_def match_algorithm_def driver_loop_def)
qed

lemma distinct_selected: "distinct (map fst (selected a s))"
proof -
  let ?cands = "candidates (dstore s ! a) (pstore s)"
  have "distinct (map fst ?cands)"
    by (simp add: map_fst_candidates)
  moreover have "mset (map fst (sort_key rank_key ?cands)) = mset (map fst ?cands)"
    by simp
  ultimately have d: "distinct (map fst (sort_key rank_key ?cands))"
    by (metis mset_eq_imp_distinct_iff)
  have "distinct (map fst (take n (sort_key rank_key ?cands)))" for n
    using d by (simp add: take_map [symmetric] del: take_map)
  then show ?thesis
    by (simp add: selected_def Let_def slice_to_def)
qed

lemma turn_once_only:
  assumes "once_only s"
  shows "once_only (fold (assign a) (take k (selected a s)) s)"
proof -
  let ?cs = "take k (selected a s)"
  let ?t = "fold (assign a) ?cs s"
  have sel: "fst c < length (pstore s) \<and> matched_driver (pstore s ! fst c) = None"
    if "c \<in> set ?cs" for c
    using that selected_unmatched [of c a s] by (meson in_set_takeD)
  have ps: "map md_passenger (match_details ?t) = map md_passenger (match_details s) @ map fst ?cs"
    by (simp add: match_details_fold_assign comp_def)
  have d1: "distinct (map md_passenger (match_details s))"
    using assms by (simp add: once_only_def)
  have d2: "distinct (map fst ?cs)"
    using distinct_selected [of a s] by (simp add: take_map [symmetric] del: take_map)
  have d3: "set (map md_passenger (match_details s)) \<inter> set (map fst ?cs) = {}"
  proof (rule ccontr)
    assume "set (map md_passenger (match_details s)) \<inter> set (map fst ?cs) \<noteq> {}"
    then obtain m c where m: "m \<in> set (match_details s)" and c: "c \<in> set ?cs"
      and e: "md_passenger m = fst c" by auto
    from m assms have "matched_driver (pstore s ! md_passenger m) \<noteq> None"
      by (simp add: once_only_def)
    with sel [OF c] e show False by simp
  qed
  have 1: "distinct (map md_passenger (match_details ?t))"
    unfolding ps using d1 d2 d3 by simp
  have 2: "x < length (pstore ?t) \<and> matched_driver (pstore ?t ! x) \<noteq> None"
    if "x \<in> set (map md_passenger (match_details ?t))" for x
  proof -
    from that have "x \<in> set (map md_passenger (match_details s)) \<or> x \<in> fst ` set ?cs"
      unfolding ps by auto
    then show ?thesis
    proof
      assume "x \<in> set (map md_passenger (match_details s))"
      then have "x < length (pstore s) \<and> matched_driver (pstore s ! x) \<noteq> None"
        using assms by (auto simp add: once_only_def)
      then show ?thesis
        by (simp add: length_pstore_fold_assign matched_fold_assign)
    next
      assume x: "x \<in> fst ` set ?cs"
      then have "x < length (pstore s)" using sel by auto
      then show ?thesis using x
        by (simp add: length_pstore_fold_assign matched_fold_assign)
    qed
  qed
  show ?thesis
    unfolding once_only_def using 1 2 by auto
qed

lemma loop_once_only: "once_only s \<Longrightarrow> once_only (fold process_driver as s)"
proof -
  assume s: "once_only s"
  have "once_only (fold process_driver as s) \<and> (\<forall>t \<in> set (loop_trace as s). once_only t)"
    by (rule loop_invariant) (simp_all add: turn_once_only s)
  then show ?thesis by simp
qed

section \<open>Fares\<close>

lemma ride_cost: "real_of_int PRICE_BASE / real_of_int MAX_CAPACITY + real_of_int PRICE_BASE * MARKUP_PERCENT = 45"
  by (simp add: PRICE_BASE_def MAX_CAPACITY_def MARKUP_PERCENT_def)

lemma turn_fares:
  assumes "\<forall>m \<in> set (match_details s). md_fare m = 45"
      and "\<forall>k < length (pstore s). fare_settled (pstore s ! k)"
  shows "(\<forall>m \<in> set (match_details (fold (assign a) cs s)). md_fare m = 45)
         \<and> (\<forall>k < length (pstore (fold (assign a) cs s)).
               fare_settled (pstore (fold (assign a) cs s) ! k))"
proof -
  have "\<forall>m \<in> set (match_details (fold (assign a) cs s)). md_fare m = 45"
    using assms(1) by (auto simp add: match_details_fold_assign)
  moreover have "fare_settled (pstore (fold (assign a) cs s) ! k)"
    if "k < length (pstore s)" for k
    using assms(2) that by (simp add: fare_settled_def matched_fold_assign fare_fold_assign)
  ultimately show ?thesis by (simp add: length_pstore_fold_assign)
qed

lemma loop_fares:
  assumes "\<forall>m \<in> set (match_details s). md_fare m = 45"
      and "\<forall>k < length (pstore s). fare_settled (pstore s ! k)"
  shows "(\<forall>m \<in> set (match_details (fold process_driver as s)). md_fare m = 45)
         \<and> (\<forall>k < length (pstore (fold process_driver as s)).
               fare_settled (pstore (fold process_driver as s) ! k))"
proof -
  let ?P = "\<lambda>t::state. (\<forall>m \<in> set (match_details t). md_fare m = 45)
     \<and> (\<forall>k < length (pstore t). fare_settled (pstore t ! k))"
  have "?P (fold process_driver as s) \<and> (\<forall>t \<in> set (loop_trace as s). ?P t)"
  proof (rule loop_invariant)
    show "?P s" using assms by simp
  next
    fix a t k assume "?P t"
    then show "?P (fold (assign a) (take k (selected a t)) t)"
      using turn_fares [of t a "take k (selected a t)"] by blast
  qed
  then show ?thesis by blast
qed

section \<open>The matched flags\<close>

lemma verdict_simps:
  "driver_id (verdict d p) = ident d"
  "driver_name (verdict d p) = name d"
  "matched (verdict d p) = None"
  by (simp_all add: verdict_def Let_def)

lemma loop_refs:
  assumes "set as \<subseteq> {..<n}"
      and "\<forall>k < length (pstore s). \<forall>a. matched_driver (pstore s ! k) = Some a \<longrightarrow> a < n"
  shows "\<forall>k < length (pstore (fold process_driver as s)). \<forall>a.
           matched_driver (pstore (fold process_driver as s) ! k) = Some a \<longrightarrow> a < n"
proof -
  let ?P = "\<lambda>t::state. \<forall>k < length (pstore t). \<forall>a.
     matched_driver (pstore t ! k) = Some a \<longrightarrow> a < n"
  have "?P (fold process_driver as s) \<and> (\<forall>t \<in> set (loop_trace as s). ?P t)"
  proof (rule loop_invariant)
    show "?P s" using assms by simp
  next
    fix a t k assume a: "a \<in> set as" and P: "?P t"
    from a assms(1) have "a < n" by auto
    with P show "?P (fold (assign a) (take k (selected a t)) t)"
      by (simp add: length_pstore_fold_assign matched_fold_assign)
  qed
  then show ?thesis by blast
qed

lemma refresh_matched_None:
  "matched_driver p = None \<Longrightarrow> rejection_reasons (refresh_matched ds p) = rejection_reasons p"
  by (simp add: refresh_matched_def)

lemma refresh_matched_Some:
  "matched_driver p = Some a \<Longrightarrow>
   rejection_reasons (refresh_matched ds p) =
     map (\<lambda>r. r\<lparr>matched := Some (driver_id r = ident (ds ! a))\<rparr>) (rejection_reasons p)"
  by (simp add: refresh_matched_def)

section \<open>Ranking\<close>

lemma is_compatible_verdict:
  "is_compatible (verdict d p) \<longleftrightarrow>
     haversine (origin d) (origin p) \<le> SEARCH_RADIUS_KM
     \<and> haversine (dest d) (dest p) \<le> SEARCH_RADIUS_KM
     \<and> \<bar>schedule d - schedule p\<bar> \<le> 1"
  by (auto simp add: verdict_def Let_def)

lemma candidate_iff_compatible:
  "candidate drv ps i \<noteq> None \<longleftrightarrow>
     matched_driver (ps ! i) = None \<and> is_compatible (verdict drv (ps ! i))"
  unfolding candidate_None is_compatible_verdict by blast

lemma candidates_distances:
  assumes "c \<in> set (candidates drv ps)"
  shows "snd c = (haversine (origin drv) (origin (ps ! fst c)),
                  haversine (dest drv) (dest (ps ! fst c)))"
proof -
  obtain i y z where c: "c = (i, y, z)" by (cases c)
  from assms have "candidate drv ps i = Some (i, y, z)"
    unfolding c by (simp add: in_candidates)
  then show ?thesis unfolding c by (simp add: candidate_Some)
qed

lemma selected_take:
  assumes "0 \<le> capacity (dstore s ! a)"
  shows "selected a s =
     take (min (nat (capacity (dstore s ! a))) (length (candidates (dstore s ! a) (pstore s))))
          (sort_key rank_key (candidates (dstore s ! a) (pstore s)))"
  using assms by (simp add: selected_def Let_def slice_to_def min_def)

lemma sorted_take_drop:
  assumes "sorted (map f xs)" and "x \<in> set (take n xs)" and "y \<in> set (drop n xs)"
  shows "f x \<le> f y"
proof -
  have "sorted (map f (take n xs) @ map f (drop n xs))"
    using assms(1) by (simp add: map_append [symmetric] del: map_append)
  then show ?thesis
    using assms(2,3) by (auto simp add: sorted_append)
qed

lemma rank_key_sum: "rank_key = (\<lambda>c. fst (snd c) + snd (snd c))"
  by (simp add: fun_eq_iff rank_key_def)

section \<open>The driver list and the order of the rejection entries\<close>

lemma loop_rejections:
  assumes "i < length ps"
  shows "rejection_reasons
           (pstore (fold process_driver as (shuffled_state shuffle ds ps)) ! i)
         = map (\<lambda>d. verdict d (ps ! i)) ds"
proof -
  let ?s = "shuffled_state shuffle ds ps"
  let ?L = "fold process_driver as ?s"
  have fr: "map rejection_reasons (pstore ?L) = map rejection_reasons (pstore ?s)"
    using loop_frame [of as ?s] by blast
  then have "length (pstore ?L) = length (pstore ?s)" by (metis length_map)
  then have lp: "length (pstore ?L) = length ps" by (simp add: shuffled_state_simps)
  have "rejection_reasons (pstore ?L ! i) = map rejection_reasons (pstore ?L) ! i"
    using assms lp by simp
  also have "\<dots> = map rejection_reasons (pstore ?s) ! i"
    by (simp only: fr)
  also have "\<dots> = map (\<lambda>d. verdict d (ps ! i)) ds"
    using assms by (simp add: shuffled_state_simps record_rejections_simps)
  finally show ?thesis .
qed

lemma refresh_matched_ids:
  "map driver_id (rejection_reasons (refresh_matched D p)) = map driver_id (rejection_reasons p)"
  by (simp add: refresh_matched_def comp_def split: option.split)

lemma final_rejection_ids:
  assumes "q \<in> set (pstore (match_algorithm shuffle ds ps))"
  shows "map driver_id (rejection_reasons q) = map ident ds"
proof -
  let ?s = "shuffled_state shuffle ds ps"
  let ?L = "fold process_driver (drivers ?s) ?s"
  have F: "match_algorithm shuffle ds ps = refresh_all ?L"
    by (simp add: match_algorithm_def driver_loop_def)
  have "map user.truncate (pstore ?L) = map user.truncate (pstore ?s)"
    using loop_frame [of "drivers ?s" ?s] by blast
  then have "length (pstore ?L) = length (pstore ?s)" by (rule users_length)
  then have lp: "length (pstore ?L) = length ps" by (simp add: shuffled_state_simps)
  from assms obtain i where i: "i < length ps"
    and q: "q = refresh_matched (dstore ?L) (pstore ?L ! i)"
    unfolding F refresh_all_simps using lp by (auto simp add: in_set_conv_nth)
  have "map driver_id (rejection_reasons q) = map driver_id (rejection_reasons (pstore ?L ! i))"
    unfolding q by (rule refresh_matched_ids)
  also have "\<dots> = map ident ds"
    using i by (simp add: loop_rejections verdict_simps comp_def)
  finally show ?thesis .
qed

section \<open>A driver with fewer seats than candidates\<close>

lemma reasons_verdict:
  "reasons (verdict d p) = [] \<longleftrightarrow> is_compatible (verdict d p)"
  by (simp add: verdict_def Let_def)

lemma shuffle_single:
  assumes "mset (shuffle [0..<length [d]]) = mset [0..<length [d]]"
  shows "shuffle [0..<length [d]] = [0]"
proof -
  have "mset (shuffle [0..<length [d]]) = {#0#}" using assms by simp
  then show ?thesis by (rule mset_single_iff [THEN iffD1])
qed

lemma take_2_of_3:
  assumes "length xs = 3" and "distinct (map f xs)"
  shows "f (xs ! 0) \<in> f ` set (take 2 xs)" "f (xs ! 1) \<in> f ` set (take 2 xs)"
    "f (xs ! 2) \<notin> f ` set (take 2 xs)" "f ` set (take 2 xs) = set (map f xs) - {f (xs ! 2)}"
proof -
  obtain a b c where xs: "xs = [a, b, c]"
    using assms(1) by (auto simp add: length_Suc_conv numeral_3_eq_3)
  show "f (xs ! 0) \<in> f ` set (take 2 xs)" "f (xs ! 1) \<in> f ` set (take 2 xs)"
    "f (xs ! 2) \<notin> f ` set (take 2 xs)" "f ` set (take 2 xs) = set (map f xs) - {f (xs ! 2)}"
    using assms(2) unfolding xs by (auto simp add: numeral_2_eq_2)
qed

section \<open>The library sort\<close>







section \<open>The distance function\<close>

text \<open>
  The number under the two square roots of \<^verbatim>\<open>haversine\<close> is between 0 and 1 for all
  real arguments, so no square root is taken of a negative number.
\<close>

lemma haversine_argument_range:
  fixes lat1 lat2 dlon :: real
  shows "0 \<le> (sin ((lat2 - lat1) / 2))\<^sup>2 + cos lat1 * cos lat2 * (sin (dlon / 2))\<^sup>2
         \<and> (sin ((lat2 - lat1) / 2))\<^sup>2 + cos lat1 * cos lat2 * (sin (dlon / 2))\<^sup>2 \<le> 1"
proof -
  define a where
    "a = (sin ((lat2 - lat1) / 2))\<^sup>2 + cos lat1 * cos lat2 * (sin (dlon / 2))\<^sup>2"
  define C where "C = cos (lat2 - lat1)"
  define S where "S = cos (lat2 + lat1)"
  define t where "t = (sin (dlon / 2))\<^sup>2"
  have t: "0 \<le> t" "t \<le> 1"
    by (simp_all add: t_def abs_square_le_1 abs_sin_le_one)
  have C: "C \<le> 1" "- 1 \<le> C" and S: "S \<le> 1" "- 1 \<le> S"
    by (simp_all add: C_def S_def)
  define x where "x = (lat2 - lat1) / 2"
  have "lat2 - lat1 = 2 * x" by (simp add: x_def)
  then have "C = cos (2 * x)" by (simp only: C_def)
  also have "\<dots> = 1 - 2 * (sin x)\<^sup>2" by (rule cos_double_sin)
  finally have "(sin x)\<^sup>2 = (1 - C) / 2" by simp
  then have h: "(sin ((lat2 - lat1) / 2))\<^sup>2 = (1 - C) / 2"
    by (simp only: x_def)
  have p: "cos lat1 * cos lat2 = (C + S) / 2"
    by (simp add: C_def S_def cos_add cos_diff)
  define q where "q = (C + S) / 2 * t"
  have a: "a = (1 - C) / 2 + q"
    unfolding a_def h p t_def q_def ..
  have "q \<le> (C + 1) / 2 * t"
    unfolding q_def using S(1) t(1) by (intro mult_right_mono) simp_all
  also have "\<dots> \<le> (C + 1) / 2 * 1"
    using C(2) t(2) by (intro mult_left_mono) simp_all
  finally have "q \<le> (C + 1) / 2" by simp
  then have up: "a \<le> 1" unfolding a by (simp add: field_simps)
  have "(C - 1) / 2 * t \<le> q"
    unfolding q_def using S(2) t(1) by (intro mult_right_mono) simp_all
  moreover have "(C - 1) / 2 * 1 \<le> (C - 1) / 2 * t"
    using C(1) t(2) by (intro mult_left_mono_neg) simp_all
  ultimately have "(C - 1) / 2 \<le> q" by simp
  then have "0 \<le> a" unfolding a by (simp add: field_simps)
  with up show ?thesis unfolding a_def by simp
qed

text \<open>Distances between points of the equator less than 180 degrees apart.\<close>

lemma atan2_sin_cos:
  assumes "0 \<le> t" and "t < pi / 2"
  shows "atan2 (sin t) (cos t) = t"
proof -
  have c: "0 < cos t" using assms by (intro cos_gt_zero_pi) linarith+
  have "arctan (sin t / cos t) = t"
    using assms arctan_tan [of t] by (simp add: tan_def)
  with c show ?thesis by (simp add: atan2_def)
qed

lemma haversine_equator:
  assumes "\<bar>y - x\<bar> < 180"
  shows "haversine (0, x) (0, y) = 6371 * (\<bar>y - x\<bar> * pi / 180)"
proof -
  define t where "t = \<bar>y - x\<bar> * pi / 360"
  have t0: "0 \<le> t" by (simp add: t_def)
  have "\<bar>y - x\<bar> * pi < 180 * pi" using assms by simp
  then have t1: "t < pi / 2" by (simp add: t_def)
  have c: "0 < cos t" using t0 t1 by (intro cos_gt_zero_pi) linarith+
  have s: "0 \<le> sin t" using t0 t1 by (intro sin_ge_zero) linarith+
  have "(radians y - radians x) / 2 = t \<or> (radians y - radians x) / 2 = - t"
    by (auto simp add: radians_def t_def abs_if field_simps)
  then have a: "(sin ((radians y - radians x) / 2))\<^sup>2 = (sin t)\<^sup>2"
    by auto
  have r1: "sqrt ((sin t)\<^sup>2) = sin t" using s by simp
  have "1 - (sin t)\<^sup>2 = (cos t)\<^sup>2" by (simp add: cos_squared_eq)
  then have r2: "sqrt (1 - (sin t)\<^sup>2) = cos t" using c by simp
  have "haversine (0, x) (0, y) = 6371 * (2 * atan2 (sin t) (cos t))"
    using s by (simp add: haversine_def Let_def radians_def [of 0] a r2)
  also have "\<dots> = 6371 * (2 * t)" using t0 t1 by (simp add: atan2_sin_cos)
  finally show ?thesis by (simp add: t_def)
qed

lemma haversine_same_equator: "haversine (0, x) (0, x) = 0"
  using haversine_equator [of x x] by simp

lemma haversine_one_degree: "haversine (0, 0) (0, 1) > 1" "haversine (0, 1) (0, 0) > 1"
proof -
  have "6371 * pi / 180 > 1" using pi_ge_two by simp
  then show "haversine (0, 0) (0, 1) > 1" "haversine (0, 1) (0, 0) > 1"
    using haversine_equator [of 1 0] haversine_equator [of 0 1] by simp_all
qed

section \<open>The run on the small population\<close>

lemmas run_defs =
  match_algorithm_def driver_loop_def shuffled_state_def refresh_all_def refresh_matched_def
  record_rejections_def verdict_def process_driver_def selected_def slice_to_def
  candidates_def candidate_def assign_def rank_key_def List.map_filter_def
  Driver_def Passenger_def SEARCH_RADIUS_KM_def MAX_CAPACITY_def PRICE_BASE_def
  MARKUP_PERCENT_def

text \<open>
  With the driver list reversed by the shuffle, the driver leaving at 9 is served first
  and takes both passengers that any driver could take.
\<close>

lemma ex_match_details:
  "match_details (match_algorithm rev ex_drivers ex_passengers) =
     [\<lparr>md_driver = 1, md_passenger = 0, pickup_dist = 0, dropoff_dist = 0, md_fare = 45\<rparr>,
      \<lparr>md_driver = 1, md_passenger = 1, pickup_dist = 0, dropoff_dist = 0, md_fare = 45\<rparr>]"
  by (simp add: ex_drivers_def ex_passengers_def run_defs Let_def haversine_same_equator
        haversine_one_degree upt_rec)


lemma ex_dstore:
  "dstore (match_algorithm rev ex_drivers ex_passengers) =
     [Driver 0 (0, 0) (0, 1) ''Ali_0'' 8,
      (Driver 1 (0, 0) (0, 1) ''Sara_1'' 9)\<lparr>capacity := 2, passengers := [0, 1]\<rparr>]"
  by (simp add: ex_drivers_def ex_passengers_def run_defs Let_def haversine_same_equator
        haversine_one_degree upt_rec)

lemma ex_pstore:
  "pstore (match_algorithm rev ex_drivers ex_passengers) =
     [(Passenger 0 (0, 0) (0, 1) ''Reza_0'' 8)
        \<lparr>matched_driver := Some 1, pickup_distance := Some 0, dropoff_distance := Some 0,
         fare := 45,
         rejection_reasons :=
          [\<lparr>driver_id = 0, driver_name = ''Ali_0'', rej_pickup_distance = 0,
            rej_dropoff_distance = 0, reasons = [], is_compatible = True,
            matched = Some False\<rparr>,
           \<lparr>driver_id = 1, driver_name = ''Sara_1'', rej_pickup_distance = 0,
            rej_dropoff_distance = 0, reasons = [], is_compatible = True,
            matched = Some True\<rparr>]\<rparr>,
      (Passenger 1 (0, 0) (0, 1) ''Mina_1'' 10)
        \<lparr>matched_driver := Some 1, pickup_distance := Some 0, dropoff_distance := Some 0,
         fare := 45,
         rejection_reasons :=
          [\<lparr>driver_id = 0, driver_name = ''Ali_0'', rej_pickup_distance = 0,
            rej_dropoff_distance = 0, reasons = [Schedule_mismatch 8 10],
            is_compatible = False, matched = Some False\<rparr>,
           \<lparr>driver_id = 1, driver_name = ''Sara_1'', rej_pickup_distance = 0,
            rej_dropoff_distance = 0, reasons = [], is_compatible = True,
            matched = Some True\<rparr>]\<rparr>,
      (Passenger 2 (0, 0) (0, 0) ''Amir_2'' 8)
        \<lparr>rejection_reasons :=
          [\<lparr>driver_id = 0, driver_name = ''Ali_0'', rej_pickup_distance = 0,
            rej_dropoff_distance = haversine (0, 1) (0, 0),
            reasons = [Destination_too_far (haversine (0, 1) (0, 0))],
            is_compatible = False, matched = None\<rparr>,
           \<lparr>driver_id = 1, driver_name = ''Sara_1'', rej_pickup_distance = 0,
            rej_dropoff_distance = haversine (0, 1) (0, 0),
            reasons = [Destination_too_far (haversine (0, 1) (0, 0))],
            is_compatible = False, matched = None\<rparr>]\<rparr>]"
  by (simp add: ex_drivers_def ex_passengers_def run_defs Let_def haversine_same_equator
        haversine_one_degree upt_rec)

text \<open>The \<open>matched_driver\<close> fields of the three passengers in the states of the run.\<close>

lemma ex_trace:
  "map (\<lambda>s. map matched_driver (pstore s)) (match_trace rev ex_drivers ex_passengers) =
     [[None, None, None], [None, None, None], [Some 1, None, None],
      [Some 1, Some 1, None], [Some 1, Some 1, None]]"
  by (simp add: ex_drivers_def ex_passengers_def match_trace_def entry_state_def
        process_trace_def run_defs Let_def haversine_same_equator haversine_one_degree upt_rec)

section \<open>The runs of the full-capacity scenario\<close>

lemma haversine_km_east:
  assumes "0 \<le> x" and "x \<le> 1"
  shows "haversine (0, 0) (0, km_east x) = x"
proof -
  have p: "6371 * pi > 1" using pi_ge_two by simp
  have "x * 180 < 180 * (6371 * pi)" using assms p by simp
  then have "x * 180 / (6371 * pi) < 180" by (simp add: field_simps)
  moreover have "0 \<le> x * 180 / (6371 * pi)" using assms by simp
  ultimately have "\<bar>km_east x - 0\<bar> < 180" by (simp add: km_east_def)
  then have "haversine (0, 0) (0, km_east x) = 6371 * (\<bar>km_east x - 0\<bar> * pi / 180)"
    by (rule haversine_equator)
  also have "\<dots> = x" using assms by (simp add: km_east_def)
  finally show ?thesis .
qed

lemma haversine_km_east_from:
  assumes "0 \<le> x" and "x \<le> 1"
  shows "haversine (0, y) (0, y + km_east x) = x"
proof -
  have p: "6371 * pi > 1" using pi_ge_two by simp
  have "x * 180 < 180 * (6371 * pi)" using assms p by simp
  then have "x * 180 / (6371 * pi) < 180" by (simp add: field_simps)
  moreover have "0 \<le> x * 180 / (6371 * pi)" using assms by simp
  ultimately have "\<bar>(y + km_east x) - y\<bar> < 180" by (simp add: km_east_def)
  then have "haversine (0, y) (0, y + km_east x) = 6371 * (\<bar>(y + km_east x) - y\<bar> * pi / 180)"
    by (rule haversine_equator)
  also have "\<dots> = x" using assms by (simp add: km_east_def)
  finally show ?thesis .
qed

text \<open>The scenario with every drop-off at the driver's destination.\<close>

lemma sc_match_details:
  "match_details (match_algorithm id [sc_driver] sc_passengers) =
     [\<lparr>md_driver = 0, md_passenger = 0, pickup_dist = 2 / 10, dropoff_dist = 0, md_fare = 45\<rparr>,
      \<lparr>md_driver = 0, md_passenger = 1, pickup_dist = 5 / 10, dropoff_dist = 0, md_fare = 45\<rparr>]"
  by (simp add: sc_driver_def sc_passengers_def run_defs Let_def haversine_same_equator
        haversine_km_east upt_rec del: not_None_eq)

lemma sc_dstore:
  "dstore (match_algorithm id [sc_driver] sc_passengers) =
     [(Driver 0 (0, 0) (0, 1) ''Ali_0'' 8)\<lparr>capacity := 0, passengers := [0, 1]\<rparr>]"
  by (simp add: sc_driver_def sc_passengers_def run_defs Let_def haversine_same_equator
        haversine_km_east upt_rec del: not_None_eq)

lemma sc_third_passenger:
  "pstore (match_algorithm id [sc_driver] sc_passengers) ! 2 =
     (Passenger 2 (0, km_east (9 / 10)) (0, 1) ''Mina_2'' 8)
       \<lparr>rejection_reasons :=
          [\<lparr>driver_id = 0, driver_name = ''Ali_0'', rej_pickup_distance = 9 / 10,
            rej_dropoff_distance = 0, reasons = [], is_compatible = True, matched = None\<rparr>]\<rparr>"
  by (simp add: sc_driver_def sc_passengers_def run_defs Let_def haversine_same_equator
        haversine_km_east upt_rec del: not_None_eq)

text \<open>The scenario with the first passenger's destination 0.9 km away.\<close>

lemma sc_detour_candidates:
  "candidates (dstore (shuffled_state id [sc_driver] sc_detour_passengers) ! 0)
              (pstore (shuffled_state id [sc_driver] sc_detour_passengers))
     = [(0, 2 / 10, 9 / 10), (1, 5 / 10, 0), (2, 9 / 10, 0)]"
  by (simp add: sc_driver_def sc_detour_passengers_def run_defs Let_def haversine_same_equator
        haversine_km_east haversine_km_east_from upt_rec del: not_None_eq)

lemma sc_detour_selected:
  "selected 0 (shuffled_state id [sc_driver] sc_detour_passengers)
     = [(1, 5 / 10, 0), (2, 9 / 10, 0)]"
  by (simp add: sc_driver_def sc_detour_passengers_def run_defs Let_def haversine_same_equator
        haversine_km_east haversine_km_east_from upt_rec del: not_None_eq)

lemma sc_detour_state:
  "capacity (dstore (shuffled_state id [sc_driver] sc_detour_passengers) ! 0) = 2"
  "haversine (origin (dstore (shuffled_state id [sc_driver] sc_detour_passengers) ! 0))
             (origin (pstore (shuffled_state id [sc_driver] sc_detour_passengers) ! 0)) = 2 / 10"
  "haversine (dest (dstore (shuffled_state id [sc_driver] sc_detour_passengers) ! 0))
             (dest (pstore (shuffled_state id [sc_driver] sc_detour_passengers) ! 0)) = 9 / 10"
  "haversine (origin (dstore (shuffled_state id [sc_driver] sc_detour_passengers) ! 0))
             (origin (pstore (shuffled_state id [sc_driver] sc_detour_passengers) ! 2)) = 9 / 10"
  "haversine (dest (dstore (shuffled_state id [sc_driver] sc_detour_passengers) ! 0))
             (dest (pstore (shuffled_state id [sc_driver] sc_detour_passengers) ! 2)) = 0"
  by (simp_all add: shuffled_state_simps record_rejections_def sc_driver_def
        sc_detour_passengers_def Driver_def Passenger_def haversine_km_east
        haversine_km_east_from haversine_same_equator)

lemma sc_detour_passengers_list:
  "sc_detour_passengers
     = [sc_detour_passengers ! 0, sc_detour_passengers ! 1, sc_detour_passengers ! 2]"
  by (simp add: sc_detour_passengers_def)

lemma sc_detour_facts:
  "capacity sc_driver = 2" "schedule sc_driver = 8"
  "matched_driver (sc_detour_passengers ! 0) = None"
  "matched_driver (sc_detour_passengers ! 1) = None"
  "matched_driver (sc_detour_passengers ! 2) = None"
  "schedule (sc_detour_passengers ! 0) = 8" "schedule (sc_detour_passengers ! 1) = 8"
  "schedule (sc_detour_passengers ! 2) = 8"
  "haversine (origin sc_driver) (origin (sc_detour_passengers ! 0)) = 2 / 10"
  "haversine (origin sc_driver) (origin (sc_detour_passengers ! 1)) = 5 / 10"
  "haversine (origin sc_driver) (origin (sc_detour_passengers ! 2)) = 9 / 10"
  "haversine (dest sc_driver) (dest (sc_detour_passengers ! 0)) = 9 / 10"
  "haversine (dest sc_driver) (dest (sc_detour_passengers ! 1)) = 0"
  "haversine (dest sc_driver) (dest (sc_detour_passengers ! 2)) = 0"
  by (simp_all add: sc_driver_def sc_detour_passengers_def Driver_def Passenger_def
        haversine_km_east haversine_km_east_from haversine_same_equator)

section \<open>Constraint soundness\<close>

text \<open>
  Claim C1. Whatever the population and whatever permutation the shuffle produces, every
  match record returned by \<^verbatim>\<open>match_algorithm\<close> refers to a driver and a passenger of
  the pools, carries the haversine distances between their origins and between their
  destinations, both at most \<open>SEARCH_RADIUS_KM\<close> (1 km), and the two schedules differ
  by at most one hour.
\<close>

theorem constraint_soundness:
  assumes "mset (shuffle [0..<length ds]) = mset [0..<length ds]"
  shows "\<forall>m \<in> set (match_details (match_algorithm shuffle ds ps)).
           md_driver m < length ds \<and> md_passenger m < length ps
           \<and> pickup_dist m = haversine (origin (ds ! md_driver m)) (origin (ps ! md_passenger m))
           \<and> pickup_dist m \<le> SEARCH_RADIUS_KM
           \<and> dropoff_dist m = haversine (dest (ds ! md_driver m)) (dest (ps ! md_passenger m))
           \<and> dropoff_dist m \<le> SEARCH_RADIUS_KM
           \<and> \<bar>schedule (ds ! md_driver m) - schedule (ps ! md_passenger m)\<bar> \<le> 1"
proof -
  let ?s = "shuffled_state shuffle ds ps"
  have "set (drivers ?s) \<subseteq> {..<length (dstore ?s)}"
    using shuffle_in_range [OF assms] by (simp add: shuffled_state_simps)
  moreover have "\<forall>m \<in> set (match_details ?s). sound_match (dstore ?s) (pstore ?s) m"
    by (simp add: shuffled_state_simps)
  ultimately have "\<forall>m \<in> set (match_details (fold process_driver (drivers ?s) ?s)).
      sound_match (dstore ?s) (pstore ?s) m"
    by (rule loop_sound)
  then have "\<forall>m \<in> set (match_details (match_algorithm shuffle ds ps)).
      sound_match (dstore ?s) (pstore ?s) m"
    by (simp add: match_algorithm_def driver_loop_def refresh_all_simps)
  moreover have "sound_match (dstore ?s) (pstore ?s) m = sound_match ds ps m" for m
    by (rule sound_match_users) (simp_all add: shuffled_state_simps record_rejections_simps)
  ultimately have "\<forall>m \<in> set (match_details (match_algorithm shuffle ds ps)).
      sound_match ds ps m"
    by simp
  then show ?thesis
    unfolding sound_match_def .
qed

theorem constraint_soundness_witness:
  "mset (rev [0..<length ex_drivers]) = mset [0..<length ex_drivers]
   \<and> length (match_details (match_algorithm rev ex_drivers ex_passengers)) = 2
   \<and> pickup_dist (match_details (match_algorithm rev ex_drivers ex_passengers) ! 0)
         \<le> SEARCH_RADIUS_KM
   \<and> dropoff_dist (match_details (match_algorithm rev ex_drivers ex_passengers) ! 0)
         \<le> SEARCH_RADIUS_KM
   \<and> \<bar>schedule (ex_drivers !
                md_driver (match_details (match_algorithm rev ex_drivers ex_passengers) ! 0))
        - schedule (ex_passengers !
                md_passenger (match_details (match_algorithm rev ex_drivers ex_passengers) ! 0))\<bar>
         \<le> 1"
proof -
  let ?ms = "match_details (match_algorithm rev ex_drivers ex_passengers)"
  have h: "mset (rev [0..<length ex_drivers]) = mset [0..<length ex_drivers]"
    by simp
  have n: "length ?ms = 2"
    by (simp add: ex_match_details)
  then have "?ms ! 0 \<in> set ?ms" by simp
  with h n constraint_soundness [of rev ex_drivers ex_passengers, OF h]
  show ?thesis by blast
qed

section \<open>Capacity invariant\<close>

text \<open>
  Claim C2. When every driver handed to \<^verbatim>\<open>match_algorithm\<close> has
  \<open>capacity + len(passengers) = MAX_CAPACITY\<close> and no negative capacity (as
  \<^verbatim>\<open>Driver.__init__\<close> leaves it), this holds for every driver in every state of the
  run: at entry, after the rejection pass and the shuffle, after each single assignment
  (an assignment being one pass through the body of the assignment loop) and in the
  returned state; so a driver never carries more than \<open>MAX_CAPACITY\<close> passengers and
  its capacity never falls below zero.
\<close>

theorem capacity_invariant:
  assumes "mset (shuffle [0..<length ds]) = mset [0..<length ds]"
      and "\<forall>d \<in> set ds. capacity d + int (length (passengers d)) = MAX_CAPACITY \<and> 0 \<le> capacity d"
  shows "(\<forall>s \<in> set (match_trace shuffle ds ps). \<forall>d \<in> set (dstore s).
            capacity d + int (length (passengers d)) = MAX_CAPACITY
            \<and> int (length (passengers d)) \<le> MAX_CAPACITY \<and> 0 \<le> capacity d)
         \<and> last (match_trace shuffle ds ps) = match_algorithm shuffle ds ps"
proof -
  let ?s = "shuffled_state shuffle ds ps"
  let ?ok = "\<lambda>t::state. \<forall>d \<in> set (dstore t). seats_ok d"
  have ds: "\<forall>d \<in> set ds. seats_ok d" using assms(2) by (simp add: seats_ok_def)
  have r: "set (drivers ?s) \<subseteq> {..<length (dstore ?s)}"
    using shuffle_in_range [OF assms(1)] by (simp add: shuffled_state_simps)
  have s: "?ok ?s" using ds by (simp add: shuffled_state_simps)
  have e: "?ok (entry_state ds ps)" using ds by (simp add: entry_state_def)
  have l: "?ok (fold process_driver (drivers ?s) ?s)"
    and t: "\<forall>t \<in> set (loop_trace (drivers ?s) ?s). ?ok t"
    using loop_seats [OF r s] by blast+
  have f: "?ok (match_algorithm shuffle ds ps)"
    using l by (simp add: match_algorithm_def driver_loop_def refresh_all_simps)
  have "\<forall>t \<in> set (match_trace shuffle ds ps). ?ok t"
    using e s t f by (simp add: match_trace_def Let_def)
  then have "\<forall>s \<in> set (match_trace shuffle ds ps). \<forall>d \<in> set (dstore s).
            capacity d + int (length (passengers d)) = MAX_CAPACITY
            \<and> int (length (passengers d)) \<le> MAX_CAPACITY \<and> 0 \<le> capacity d"
    unfolding seats_ok_def by fastforce
  then show ?thesis using match_trace_last by blast
qed

theorem capacity_invariant_witness:
  "mset (rev [0..<length ex_drivers]) = mset [0..<length ex_drivers]
   \<and> seats_ok (ex_drivers ! 0) \<and> seats_ok (ex_drivers ! 1) \<and> length ex_drivers = 2
   \<and> passengers (dstore (match_algorithm rev ex_drivers ex_passengers) ! 1) = [0, 1]
   \<and> capacity (dstore (match_algorithm rev ex_drivers ex_passengers) ! 1) = 2
   \<and> capacity (dstore (last (match_trace rev ex_drivers ex_passengers)) ! 1)
       + int (length (passengers (dstore (last (match_trace rev ex_drivers ex_passengers)) ! 1)))
       = MAX_CAPACITY"
proof -
  let ?F = "match_algorithm rev ex_drivers ex_passengers"
  have h1: "mset (rev [0..<length ex_drivers]) = mset [0..<length ex_drivers]"
    by simp
  have s: "seats_ok (ex_drivers ! 0)" "seats_ok (ex_drivers ! 1)" "length ex_drivers = 2"
    by (simp_all add: ex_drivers_def Driver_seats_ok)
  have h2: "\<forall>d \<in> set ex_drivers.
      capacity d + int (length (passengers d)) = MAX_CAPACITY \<and> 0 \<le> capacity d"
    using Driver_seats_ok by (simp add: ex_drivers_def seats_ok_def)
  have v: "passengers (dstore ?F ! 1) = [0, 1]" "capacity (dstore ?F ! 1) = 2"
    by (simp_all add: ex_dstore)
  have "last (match_trace rev ex_drivers ex_passengers) \<in> set (match_trace rev ex_drivers ex_passengers)"
    by (simp add: match_trace_def Let_def)
  moreover have "dstore (last (match_trace rev ex_drivers ex_passengers)) ! 1
      \<in> set (dstore (last (match_trace rev ex_drivers ex_passengers)))"
    by (simp add: match_trace_last ex_dstore)
  ultimately have "capacity (dstore (last (match_trace rev ex_drivers ex_passengers)) ! 1)
       + int (length (passengers (dstore (last (match_trace rev ex_drivers ex_passengers)) ! 1)))
       = MAX_CAPACITY"
    using capacity_invariant [of rev ex_drivers ex_passengers, OF h1 h2] by blast
  with h1 s v show ?thesis by blast
qed

section \<open>At most one match\<close>

text \<open>
  Claim C3. In a run of \<^verbatim>\<open>match_algorithm\<close> no passenger is assigned twice: the
  passengers of the returned match records are pairwise distinct. Along the states of
  the run a \<open>matched_driver\<close> that is set is never cleared or changed (each state keeps
  the matches of every earlier state). And a passenger whose \<open>matched_driver\<close> is set is
  skipped by the candidate filter of any driver.
\<close>

theorem at_most_one_match:
  "distinct (map md_passenger (match_details (match_algorithm shuffle ds ps)))
   \<and> sorted_wrt keeps_match (match_trace shuffle ds ps)
   \<and> (matched_driver (qs ! i) \<noteq> None \<longrightarrow> candidate drv qs i = None)"
proof -
  let ?s = "shuffled_state shuffle ds ps"
  have "once_only ?s" by (simp add: once_only_def shuffled_state_simps)
  then have "once_only (fold process_driver (drivers ?s) ?s)" by (rule loop_once_only)
  then have "distinct (map md_passenger (match_details (match_algorithm shuffle ds ps)))"
    by (simp add: once_only_def match_algorithm_def driver_loop_def refresh_all_simps)
  moreover have "matched_driver (qs ! i) \<noteq> None \<longrightarrow> candidate drv qs i = None"
    by (simp add: candidate_def)
  ultimately show ?thesis using match_trace_chain by blast
qed

theorem at_most_one_match_witness:
  "map md_passenger (match_details (match_algorithm rev ex_drivers ex_passengers)) = [0, 1]
   \<and> map (\<lambda>s. map matched_driver (pstore s)) (match_trace rev ex_drivers ex_passengers) =
       [[None, None, None], [None, None, None], [Some 1, None, None],
        [Some 1, Some 1, None], [Some 1, Some 1, None]]
   \<and> keeps_match (match_trace rev ex_drivers ex_passengers ! 2)
                  (match_trace rev ex_drivers ex_passengers ! 4)
   \<and> candidate (ex_drivers ! 0) (pstore (match_algorithm rev ex_drivers ex_passengers)) 0 = None"
proof -
  let ?tr = "match_trace rev ex_drivers ex_passengers"
  have "length (map (\<lambda>s. map matched_driver (pstore s)) ?tr) = 5"
    unfolding ex_trace by simp
  then have n: "length ?tr = 5" by simp
  have c: "sorted_wrt keeps_match ?tr"
    and k: "matched_driver (pstore (match_algorithm rev ex_drivers ex_passengers) ! 0) \<noteq> None
      \<longrightarrow> candidate (ex_drivers ! 0) (pstore (match_algorithm rev ex_drivers ex_passengers)) 0 = None"
    using at_most_one_match [of rev ex_drivers ex_passengers
        "pstore (match_algorithm rev ex_drivers ex_passengers)" 0 "ex_drivers ! 0"]
    by blast+
  have "keeps_match (?tr ! 2) (?tr ! 4)"
    using c n by (simp add: sorted_wrt_nth_less)
  moreover have "candidate (ex_drivers ! 0) (pstore (match_algorithm rev ex_drivers ex_passengers)) 0 = None"
    using k by (simp add: ex_pstore)
  ultimately show ?thesis
    by (simp add: ex_match_details ex_trace)
qed

section \<open>Rank correctness\<close>

text \<open>
  Claim C4. In the turn of a driver with non-negative capacity, started in any state:
  the candidate list holds, in passenger-pool order, exactly the unmatched passengers
  that the compatibility verdict accepts, each with its haversine pickup and drop-off
  distance to the driver; the ranked list is the candidate list sorted ascending by the
  sum of these two distances, stably (candidates of equal sum keep their order); the
  selected candidates are the first \<open>min(capacity, len(candidates))\<close> of the ranked
  list, and they are the ones the turn assigns; so the pickup plus drop-off distance of
  every selected candidate is at most that of every candidate left over.
\<close>

theorem rank_correctness:
  assumes "0 \<le> capacity (dstore s ! a)"
  shows "let drv = dstore s ! a;
             pickup = (\<lambda>i. haversine (origin drv) (origin (pstore s ! i)));
             dropoff = (\<lambda>i. haversine (dest drv) (dest (pstore s ! i)));
             cands = candidates drv (pstore s);
             ranked = sort_key (\<lambda>c. fst (snd c) + snd (snd c)) cands;
             sel = selected a s
         in map fst cands
              = filter (\<lambda>i. matched_driver (pstore s ! i) = None
                           \<and> is_compatible (verdict drv (pstore s ! i)))
                       [0..<length (pstore s)]
            \<and> cands = map (\<lambda>i. (i, pickup i, dropoff i)) (map fst cands)
            \<and> sorted (map (\<lambda>c. pickup (fst c) + dropoff (fst c)) ranked)
            \<and> mset ranked = mset cands
            \<and> (\<forall>k. filter (\<lambda>c. pickup (fst c) + dropoff (fst c) = k) ranked
                   = filter (\<lambda>c. pickup (fst c) + dropoff (fst c) = k) cands)
            \<and> sel = take (min (nat (capacity drv)) (length cands)) ranked
            \<and> match_details (process_driver a s)
                = match_details s @
                  map (\<lambda>c. \<lparr>md_driver = a, md_passenger = fst c, pickup_dist = pickup (fst c),
                             dropoff_dist = dropoff (fst c), md_fare = 45\<rparr>) sel
            \<and> (\<forall>x \<in> set sel. \<forall>y \<in> set (drop (length sel) ranked).
                  pickup (fst x) + dropoff (fst x) \<le> pickup (fst y) + dropoff (fst y))"
proof -
  let ?drv = "dstore s ! a"
  let ?pickup = "\<lambda>i. haversine (origin ?drv) (origin (pstore s ! i))"
  let ?dropoff = "\<lambda>i. haversine (dest ?drv) (dest (pstore s ! i))"
  let ?key = "\<lambda>c::nat \<times> real \<times> real. ?pickup (fst c) + ?dropoff (fst c)"
  let ?cands = "candidates ?drv (pstore s)"
  let ?ranked = "sort_key (\<lambda>c. fst (snd c) + snd (snd c)) ?cands"
  let ?n = "min (nat (capacity ?drv)) (length ?cands)"
  have r: "?ranked = sort_key rank_key ?cands" by (simp only: rank_key_sum)
  have c: "c = (fst c, ?pickup (fst c), ?dropoff (fst c))" if "c \<in> set ?cands" for c
    using candidates_distances [OF that] by (metis prod.collapse)
  have k: "rank_key c = ?key c" if "c \<in> set ?cands" for c
    using candidates_distances [OF that] by (simp add: rank_key_def)
  have kr: "rank_key c = ?key c" if "c \<in> set ?ranked" for c
    using that k by simp
  have 1: "map fst ?cands
      = filter (\<lambda>i. matched_driver (pstore s ! i) = None
                   \<and> is_compatible (verdict ?drv (pstore s ! i))) [0..<length (pstore s)]"
    by (simp only: map_fst_candidates candidate_iff_compatible)
  have 2: "?cands = map (\<lambda>i. (i, ?pickup i, ?dropoff i)) (map fst ?cands)"
    using c by (simp add: comp_def map_idI)
  have "sorted (map rank_key ?ranked)" unfolding r by (rule sorted_sort_key)
  moreover have "map rank_key ?ranked = map ?key ?ranked"
    using kr by (intro map_cong) simp_all
  ultimately have 3: "sorted (map ?key ?ranked)" by simp
  have 4: "mset ?ranked = mset ?cands" by simp
  have 5: "filter (\<lambda>c. ?key c = v) ?ranked = filter (\<lambda>c. ?key c = v) ?cands" for v
  proof -
    have "filter (\<lambda>c. ?key c = v) ?ranked = filter (\<lambda>c. rank_key c = v) ?ranked"
      using kr by (intro filter_cong) simp_all
    also have "\<dots> = filter (\<lambda>c. rank_key c = v) ?cands"
      unfolding r by (rule sort_key_stable)
    also have "\<dots> = filter (\<lambda>c. ?key c = v) ?cands"
      using k by (intro filter_cong) simp_all
    finally show ?thesis .
  qed
  have 6: "selected a s = take ?n ?ranked"
    unfolding r using assms by (rule selected_take)
  have sub: "set (selected a s) \<subseteq> set ?cands" by (rule set_selected)
  have "map (\<lambda>c. \<lparr>md_driver = a, md_passenger = fst c, pickup_dist = fst (snd c),
                   dropoff_dist = snd (snd c), md_fare = 45\<rparr>) (selected a s)
      = map (\<lambda>c. \<lparr>md_driver = a, md_passenger = fst c, pickup_dist = ?pickup (fst c),
                   dropoff_dist = ?dropoff (fst c), md_fare = 45\<rparr>) (selected a s)"
  proof (intro map_cong refl)
    fix x assume "x \<in> set (selected a s)"
    then have "snd x = (?pickup (fst x), ?dropoff (fst x))"
      using sub candidates_distances by blast
    then show "\<lparr>md_driver = a, md_passenger = fst x, pickup_dist = fst (snd x),
                dropoff_dist = snd (snd x), md_fare = 45\<rparr>
        = \<lparr>md_driver = a, md_passenger = fst x, pickup_dist = ?pickup (fst x),
           dropoff_dist = ?dropoff (fst x), md_fare = 45\<rparr>"
      by simp
  qed
  then have 7: "match_details (process_driver a s)
      = match_details s @
        map (\<lambda>c. \<lparr>md_driver = a, md_passenger = fst c, pickup_dist = ?pickup (fst c),
                   dropoff_dist = ?dropoff (fst c), md_fare = 45\<rparr>) (selected a s)"
    by (simp only: process_driver_fold match_details_fold_assign)
  have len: "length (selected a s) = ?n" unfolding 6 by simp
  have 8: "\<forall>x \<in> set (selected a s). \<forall>y \<in> set (drop (length (selected a s)) ?ranked).
      ?key x \<le> ?key y"
    unfolding len using sorted_take_drop [OF 3] unfolding 6 by blast
  show ?thesis
    unfolding Let_def using 1 2 3 4 5 6 7 8 by blast
qed

theorem rank_correctness_witness:
  "0 \<le> capacity (dstore (shuffled_state id [sc_driver] sc_detour_passengers) ! 0)
   \<and> candidates (dstore (shuffled_state id [sc_driver] sc_detour_passengers) ! 0)
                 (pstore (shuffled_state id [sc_driver] sc_detour_passengers))
       = [(0, 2 / 10, 9 / 10), (1, 5 / 10, 0), (2, 9 / 10, 0)]
   \<and> selected 0 (shuffled_state id [sc_driver] sc_detour_passengers)
       = [(1, 5 / 10, 0), (2, 9 / 10, 0)]
   \<and> haversine (origin (dstore (shuffled_state id [sc_driver] sc_detour_passengers) ! 0))
                (origin (pstore (shuffled_state id [sc_driver] sc_detour_passengers) ! 2))
       + haversine (dest (dstore (shuffled_state id [sc_driver] sc_detour_passengers) ! 0))
                   (dest (pstore (shuffled_state id [sc_driver] sc_detour_passengers) ! 2))
       \<le> haversine (origin (dstore (shuffled_state id [sc_driver] sc_detour_passengers) ! 0))
                   (origin (pstore (shuffled_state id [sc_driver] sc_detour_passengers) ! 0))
         + haversine (dest (dstore (shuffled_state id [sc_driver] sc_detour_passengers) ! 0))
                     (dest (pstore (shuffled_state id [sc_driver] sc_detour_passengers) ! 0))
   \<and> haversine (origin (dstore (shuffled_state id [sc_driver] sc_detour_passengers) ! 0))
                (origin (pstore (shuffled_state id [sc_driver] sc_detour_passengers) ! 0))
       < haversine (origin (dstore (shuffled_state id [sc_driver] sc_detour_passengers) ! 0))
                   (origin (pstore (shuffled_state id [sc_driver] sc_detour_passengers) ! 2))"
proof -
  let ?S = "shuffled_state id [sc_driver] sc_detour_passengers"
  let ?cands = "candidates (dstore ?S ! 0) (pstore ?S)"
  let ?ranked = "sort_key (\<lambda>c. fst (snd c) + snd (snd c)) ?cands"
  let ?pickup = "\<lambda>i. haversine (origin (dstore ?S ! 0)) (origin (pstore ?S ! i))"
  let ?dropoff = "\<lambda>i. haversine (dest (dstore ?S ! 0)) (dest (pstore ?S ! i))"
  have h: "0 \<le> capacity (dstore ?S ! 0)"
    by (simp add: sc_detour_state)
  have r: "?ranked = [(1, 5 / 10, 0), (2, 9 / 10, 0), (0, 2 / 10, 9 / 10)]"
    by (simp add: sc_detour_candidates)
  have x: "(2, 9 / 10, 0) \<in> set (selected 0 ?S)"
    by (simp add: sc_detour_selected)
  have y: "(0, 2 / 10, 9 / 10) \<in> set (drop (length (selected 0 ?S)) ?ranked)"
    by (simp add: sc_detour_selected r)
  have "\<forall>x \<in> set (selected 0 ?S). \<forall>y \<in> set (drop (length (selected 0 ?S)) ?ranked).
      ?pickup (fst x) + ?dropoff (fst x) \<le> ?pickup (fst y) + ?dropoff (fst y)"
    using rank_correctness [of ?S 0, OF h] unfolding Let_def by blast
  with x y have "?pickup (fst (2::nat, 9 / 10 :: real, 0::real))
        + ?dropoff (fst (2::nat, 9 / 10 :: real, 0::real))
      \<le> ?pickup (fst (0::nat, 2 / 10 :: real, 9 / 10 :: real))
        + ?dropoff (fst (0::nat, 2 / 10 :: real, 9 / 10 :: real))"
    by blast
  then have "?pickup 2 + ?dropoff 2 \<le> ?pickup 0 + ?dropoff 0" by simp
  moreover have "?pickup 0 < ?pickup 2" by (simp add: sc_detour_state)
  ultimately show ?thesis
    using h sc_detour_candidates sc_detour_selected by blast
qed

section \<open>Fare constancy\<close>

text \<open>
  Claim C5. For passengers that enter unmatched with fare 0 (as
  \<^verbatim>\<open>Passenger.__init__\<close> creates them), every returned match record has the fare
  \<open>PRICE_BASE / MAX_CAPACITY + PRICE_BASE * MARKUP_PERCENT\<close>, which is 45, whatever the
  distances; every matched passenger's \<open>fare\<close> field is that value and every unmatched
  passenger's \<open>fare\<close> is still 0.
\<close>

theorem fare_constancy:
  assumes "\<forall>p \<in> set ps. matched_driver p = None \<and> fare p = 0"
  shows "(\<forall>m \<in> set (match_details (match_algorithm shuffle ds ps)).
            md_fare m = real_of_int PRICE_BASE / real_of_int MAX_CAPACITY
                        + real_of_int PRICE_BASE * MARKUP_PERCENT
            \<and> md_fare m = 45)
         \<and> (\<forall>p \<in> set (pstore (match_algorithm shuffle ds ps)).
              fare p = (if matched_driver p = None then 0
                        else real_of_int PRICE_BASE / real_of_int MAX_CAPACITY
                             + real_of_int PRICE_BASE * MARKUP_PERCENT))"
proof -
  let ?s = "shuffled_state shuffle ds ps"
  let ?L = "fold process_driver (drivers ?s) ?s"
  have 1: "\<forall>m \<in> set (match_details ?s). md_fare m = 45"
    by (simp add: shuffled_state_simps)
  have 2: "\<forall>k < length (pstore ?s). fare_settled (pstore ?s ! k)"
    using assms by (simp add: shuffled_state_simps record_rejections_simps fare_settled_def)
  have m: "\<forall>m \<in> set (match_details ?L). md_fare m = 45"
    and p: "\<forall>k < length (pstore ?L). fare_settled (pstore ?L ! k)"
    using loop_fares [OF 1 2] by blast+
  have F: "match_algorithm shuffle ds ps = refresh_all ?L"
    by (simp add: match_algorithm_def driver_loop_def)
  have a: "\<forall>m \<in> set (match_details (match_algorithm shuffle ds ps)). md_fare m = 45"
    using m by (simp add: F refresh_all_simps)
  have "\<forall>k < length (pstore ?L). fare_settled (refresh_matched (dstore ?L) (pstore ?L ! k))"
    using p by (simp add: fare_settled_def refresh_matched_simps)
  then have "\<forall>q \<in> set (pstore (match_algorithm shuffle ds ps)). fare_settled q"
    unfolding F refresh_all_simps by (auto simp add: in_set_conv_nth)
  then have b: "\<forall>q \<in> set (pstore (match_algorithm shuffle ds ps)).
      fare q = (if matched_driver q = None then 0 else 45)"
    by (simp add: fare_settled_def)
  show ?thesis using a b unfolding ride_cost by blast
qed

theorem fare_constancy_witness:
  "matched_driver (ex_passengers ! 0) = None \<and> fare (ex_passengers ! 0) = 0
   \<and> matched_driver (ex_passengers ! 1) = None \<and> fare (ex_passengers ! 1) = 0
   \<and> matched_driver (ex_passengers ! 2) = None \<and> fare (ex_passengers ! 2) = 0
   \<and> length ex_passengers = 3
   \<and> md_fare (match_details (match_algorithm rev ex_drivers ex_passengers) ! 0) = 45
   \<and> matched_driver (pstore (match_algorithm rev ex_drivers ex_passengers) ! 0) = Some 1
   \<and> fare (pstore (match_algorithm rev ex_drivers ex_passengers) ! 0) = 45
   \<and> matched_driver (pstore (match_algorithm rev ex_drivers ex_passengers) ! 2) = None
   \<and> fare (pstore (match_algorithm rev ex_drivers ex_passengers) ! 2) = 0"
proof -
  let ?F = "match_algorithm rev ex_drivers ex_passengers"
  have h: "\<forall>p \<in> set ex_passengers. matched_driver p = None \<and> fare p = 0"
    by (simp add: ex_passengers_def Passenger_def)
  have i: "matched_driver (ex_passengers ! 0) = None \<and> fare (ex_passengers ! 0) = 0
   \<and> matched_driver (ex_passengers ! 1) = None \<and> fare (ex_passengers ! 1) = 0
   \<and> matched_driver (ex_passengers ! 2) = None \<and> fare (ex_passengers ! 2) = 0
   \<and> length ex_passengers = 3"
    by (simp add: ex_passengers_def Passenger_def)
  have m: "match_details ?F ! 0 \<in> set (match_details ?F)"
    by (simp add: ex_match_details)
  have p: "pstore ?F ! 0 \<in> set (pstore ?F)" "pstore ?F ! 2 \<in> set (pstore ?F)"
    by (simp_all add: ex_pstore)
  have v: "matched_driver (pstore ?F ! 0) = Some 1" "matched_driver (pstore ?F ! 2) = None"
    by (simp_all add: ex_pstore Passenger_def)
  have "md_fare (match_details ?F ! 0) = 45"
    using fare_constancy [of ex_passengers rev ex_drivers, OF h] m by blast
  moreover have "fare (pstore ?F ! 0) = 45" "fare (pstore ?F ! 2) = 0"
    using fare_constancy [of ex_passengers rev ex_drivers, OF h] p v
    by (auto simp add: ride_cost)
  ultimately show ?thesis using i v by blast
qed

section \<open>Determinism under a fixed seed\<close>



section \<open>Matched-flag refresh\<close>

text \<open>
  Claim C7, as the code has it. The last loop of \<^verbatim>\<open>match_algorithm\<close> is guarded by
  \<^verbatim>\<open>if p.matched_driver\<close>. When the shuffle permutes the driver list and every driver
  reference of an entering passenger is a driver of the pool, then in the returned state
  every passenger has one rejection entry per driver, in the order of the driver list at
  entry; the entries of a passenger with a driver all carry the flag, which is true
  exactly for the entries whose \<open>driver_id\<close> is the id of the matched driver; the
  entries of a passenger without a driver carry no flag at all.
\<close>

theorem matched_flag_refresh:
  assumes "mset (shuffle [0..<length ds]) = mset [0..<length ds]"
      and "\<forall>p \<in> set ps. \<forall>a. matched_driver p = Some a \<longrightarrow> a < length ds"
  shows "length (pstore (match_algorithm shuffle ds ps)) = length ps
         \<and> (\<forall>i < length ps.
              length (rejection_reasons (pstore (match_algorithm shuffle ds ps) ! i)) = length ds
              \<and> (\<forall>j < length ds.
                   driver_id (rejection_reasons (pstore (match_algorithm shuffle ds ps) ! i) ! j)
                     = ident (ds ! j)
                   \<and> matched (rejection_reasons (pstore (match_algorithm shuffle ds ps) ! i) ! j)
                     = (case matched_driver (pstore (match_algorithm shuffle ds ps) ! i) of
                          None \<Rightarrow> None
                        | Some a \<Rightarrow> Some (ident (ds ! j) = ident (ds ! a)))))"
proof -
  let ?s = "shuffled_state shuffle ds ps"
  let ?L = "fold process_driver (drivers ?s) ?s"
  have F: "match_algorithm shuffle ds ps = refresh_all ?L"
    by (simp add: match_algorithm_def driver_loop_def)
  have fr: "map user.truncate (dstore ?L) = map user.truncate (dstore ?s)"
      "map user.truncate (pstore ?L) = map user.truncate (pstore ?s)"
      "map rejection_reasons (pstore ?L) = map rejection_reasons (pstore ?s)"
    using loop_frame [of "drivers ?s" ?s] by blast+
  have lp: "length (pstore ?L) = length ps"
    using fr(2) users_length [of "pstore ?L" "pstore ?s"] by (simp add: shuffled_state_simps)
  have r: "set (drivers ?s) \<subseteq> {..<length ds}"
    using shuffle_in_range [OF assms(1)] by (simp add: shuffled_state_simps)
  have "\<forall>k < length (pstore ?s). \<forall>a. matched_driver (pstore ?s ! k) = Some a \<longrightarrow> a < length ds"
    using assms(2) by (auto simp add: shuffled_state_simps record_rejections_simps)
  with r have refs: "\<forall>k < length (pstore ?L). \<forall>a.
      matched_driver (pstore ?L ! k) = Some a \<longrightarrow> a < length ds"
    by (rule loop_refs)
  have main: "length (rejection_reasons (pstore (refresh_all ?L) ! i)) = length ds
      \<and> (\<forall>j < length ds.
           driver_id (rejection_reasons (pstore (refresh_all ?L) ! i) ! j) = ident (ds ! j)
           \<and> matched (rejection_reasons (pstore (refresh_all ?L) ! i) ! j)
             = (case matched_driver (pstore (refresh_all ?L) ! i) of
                  None \<Rightarrow> None
                | Some a \<Rightarrow> Some (ident (ds ! j) = ident (ds ! a))))"
    if i: "i < length ps" for i
  proof -
    let ?p = "pstore ?L ! i"
    have "rejection_reasons ?p = map rejection_reasons (pstore ?L) ! i"
      using i lp by simp
    also have "\<dots> = map rejection_reasons (pstore ?s) ! i"
      by (simp only: fr(3))
    also have "\<dots> = map (\<lambda>d. verdict d (ps ! i)) ds"
      using i by (simp add: shuffled_state_simps record_rejections_simps)
    finally have rr: "rejection_reasons ?p = map (\<lambda>d. verdict d (ps ! i)) ds" .
    have q: "pstore (refresh_all ?L) ! i = refresh_matched (dstore ?L) ?p"
      using i lp by (simp add: refresh_all_simps)
    show ?thesis
    proof (cases "matched_driver ?p")
      case None
      then show ?thesis
        unfolding q by (simp add: refresh_matched_None refresh_matched_simps rr verdict_simps)
    next
      case (Some a)
      then have a: "a < length ds" using refs i lp by simp
      then have "user.truncate (dstore ?L ! a) = user.truncate (ds ! a)"
        using users_nth [OF fr(1), of a] users_length [OF fr(1)]
        by (simp add: shuffled_state_simps)
      then have "ident (dstore ?L ! a) = ident (ds ! a)"
        using truncate_fields by blast
      then show ?thesis
        unfolding q using Some
        by (simp add: refresh_matched_Some refresh_matched_simps rr verdict_simps)
    qed
  qed
  have "length (pstore (refresh_all ?L)) = length ps"
    using lp by (simp add: refresh_all_simps)
  then show ?thesis
    unfolding F using main by blast
qed

text \<open>
  The claim as stated fails on the small population: the third passenger stays
  unmatched, and its entry for the first driver has no \<open>matched\<close> flag, so it is not
  flagged false.
\<close>

theorem unmatched_has_no_flag:
  "matched_driver (pstore (match_algorithm rev ex_drivers ex_passengers) ! 2) = None
   \<and> matched (rejection_reasons (pstore (match_algorithm rev ex_drivers ex_passengers) ! 2) ! 0)
       = None
   \<and> matched (rejection_reasons (pstore (match_algorithm rev ex_drivers ex_passengers) ! 2) ! 0)
       \<noteq> Some False"
  by (simp add: ex_pstore Passenger_def)

theorem matched_flag_refresh_witness:
  "mset (rev [0..<length ex_drivers]) = mset [0..<length ex_drivers]
   \<and> matched_driver (ex_passengers ! 0) = None \<and> matched_driver (ex_passengers ! 1) = None
   \<and> matched_driver (ex_passengers ! 2) = None \<and> length ex_passengers = 3
   \<and> matched_driver (pstore (match_algorithm rev ex_drivers ex_passengers) ! 0) = Some 1
   \<and> matched (rejection_reasons (pstore (match_algorithm rev ex_drivers ex_passengers) ! 0) ! 0)
       = Some False
   \<and> matched (rejection_reasons (pstore (match_algorithm rev ex_drivers ex_passengers) ! 0) ! 1)
       = Some True
   \<and> matched_driver (pstore (match_algorithm rev ex_drivers ex_passengers) ! 2) = None
   \<and> matched (rejection_reasons (pstore (match_algorithm rev ex_drivers ex_passengers) ! 2) ! 1)
       = None"
proof -
  let ?F = "match_algorithm rev ex_drivers ex_passengers"
  have h1: "mset (rev [0..<length ex_drivers]) = mset [0..<length ex_drivers]"
    by simp
  have h2: "\<forall>p \<in> set ex_passengers. \<forall>a. matched_driver p = Some a \<longrightarrow> a < length ex_drivers"
    by (simp add: ex_passengers_def Passenger_def)
  have i: "matched_driver (ex_passengers ! 0) = None \<and> matched_driver (ex_passengers ! 1) = None
   \<and> matched_driver (ex_passengers ! 2) = None \<and> length ex_passengers = 3"
    by (simp add: ex_passengers_def Passenger_def)
  have l: "length ex_drivers = 2" by (simp add: ex_drivers_def)
  have v: "matched_driver (pstore ?F ! 0) = Some 1" "matched_driver (pstore ?F ! 2) = None"
    by (simp_all add: ex_pstore Passenger_def)
  have ids: "ident (ex_drivers ! 0) = 0" "ident (ex_drivers ! 1) = 1"
      "ident (ex_drivers ! Suc 0) = 1"
    by (simp_all add: ex_drivers_def Driver_def)
  have b: "(0::nat) < 3" "(2::nat) < 3" "(0::nat) < 2" "(1::nat) < 2" by simp_all
  have t: "\<forall>i < 3. \<forall>j < 2.
      matched (rejection_reasons (pstore ?F ! i) ! j)
      = (case matched_driver (pstore ?F ! i) of None \<Rightarrow> None
         | Some a \<Rightarrow> Some (ident (ex_drivers ! j) = ident (ex_drivers ! a)))"
    using matched_flag_refresh [of rev ex_drivers ex_passengers, OF h1 h2] i l by simp
  have "matched (rejection_reasons (pstore ?F ! 0) ! 0)
      = (case matched_driver (pstore ?F ! 0) of None \<Rightarrow> None
         | Some a \<Rightarrow> Some (ident (ex_drivers ! 0) = ident (ex_drivers ! a)))"
    using t b by blast
  then have 1: "matched (rejection_reasons (pstore ?F ! 0) ! 0) = Some False"
    by (simp add: v ids)
  have "matched (rejection_reasons (pstore ?F ! 0) ! 1)
      = (case matched_driver (pstore ?F ! 0) of None \<Rightarrow> None
         | Some a \<Rightarrow> Some (ident (ex_drivers ! 1) = ident (ex_drivers ! a)))"
    using t b by blast
  then have 2: "matched (rejection_reasons (pstore ?F ! 0) ! 1) = Some True"
    by (simp add: v ids)
  have "matched (rejection_reasons (pstore ?F ! 2) ! 1)
      = (case matched_driver (pstore ?F ! 2) of None \<Rightarrow> None
         | Some a \<Rightarrow> Some (ident (ex_drivers ! 1) = ident (ex_drivers ! a)))"
    using t b by blast
  then have 3: "matched (rejection_reasons (pstore ?F ! 2) ! 1) = None"
    by (simp add: v)
  from h1 i v 1 2 3 show ?thesis by blast
qed

section \<open>The full-capacity scenario\<close>

text \<open>
  Claim C8, as the code has it. One driver with two open seats leaving at 8, and three
  unmatched passengers leaving at 8 at pickup distances 0.2 km, 0.5 km and 0.9 km whose
  drop-off distances are at most 1 km. One passenger is left unmatched, and no other
  passenger has a larger pickup plus drop-off distance than that one; the other two are
  matched to the driver, in the order of the ranking by pickup plus drop-off distance;
  the driver's capacity ends at 0; the one rejection entry of the unmatched passenger,
  the entry for that driver, has an empty list of reasons, is marked compatible and
  carries no \<open>matched\<close> flag. The code has no reason for a full car.
\<close>

theorem full_capacity_scenario:
  assumes sh: "mset (shuffle [0..<length [d]]) = mset [0..<length [d]]"
      and d: "capacity d = 2" "schedule d = 8"
      and p: "matched_driver p1 = None" "matched_driver p2 = None" "matched_driver p3 = None"
             "schedule p1 = 8" "schedule p2 = 8" "schedule p3 = 8"
      and pick: "haversine (origin d) (origin p1) = 2 / 10"
                "haversine (origin d) (origin p2) = 5 / 10"
                "haversine (origin d) (origin p3) = 9 / 10"
      and dropoff: "haversine (dest d) (dest p1) \<le> 1" "haversine (dest d) (dest p2) \<le> 1"
                "haversine (dest d) (dest p3) \<le> 1"
  shows "let F = match_algorithm shuffle [d] [p1, p2, p3];
             total = [2 / 10 + haversine (dest d) (dest p1),
                      5 / 10 + haversine (dest d) (dest p2),
                      9 / 10 + haversine (dest d) (dest p3)];
             ranked = sort_key (\<lambda>c. fst (snd c) + snd (snd c))
               [(0, 2 / 10, haversine (dest d) (dest p1)),
                (1, 5 / 10, haversine (dest d) (dest p2)),
                (2, 9 / 10, haversine (dest d) (dest p3))];
             u = fst (ranked ! 2)
         in u < 3
            \<and> (\<forall>i < 3. total ! i \<le> total ! u)
            \<and> (\<forall>i < 3. matched_driver (pstore F ! i) = (if i = u then None else Some 0))
            \<and> sorted (map (\<lambda>c. fst (snd c) + snd (snd c)) ranked)
            \<and> map md_passenger (match_details F) = map fst (take 2 ranked)
            \<and> map md_driver (match_details F) = [0, 0]
            \<and> passengers (dstore F ! 0) = passengers d @ map fst (take 2 ranked)
            \<and> capacity (dstore F ! 0) = 0
            \<and> matched_driver (pstore F ! fst (ranked ! 0)) = Some 0
            \<and> matched_driver (pstore F ! fst (ranked ! 1)) = Some 0
            \<and> matched_driver (pstore F ! u) = None
            \<and> length (rejection_reasons (pstore F ! u)) = 1
            \<and> reasons (rejection_reasons (pstore F ! u) ! 0) = []
            \<and> is_compatible (rejection_reasons (pstore F ! u) ! 0)
            \<and> matched (rejection_reasons (pstore F ! u) ! 0) = None"
proof -
  let ?ps = "[p1, p2, p3]"
  let ?s = "shuffled_state shuffle [d] ?ps"
  let ?cands = "[(0::nat, 2 / 10 :: real, haversine (dest d) (dest p1)),
                 (1, 5 / 10, haversine (dest d) (dest p2)),
                 (2, 9 / 10, haversine (dest d) (dest p3))]"
  let ?F = "match_algorithm shuffle [d] ?ps"
  let ?key = "\<lambda>c::nat \<times> real \<times> real. fst (snd c) + snd (snd c)"
  let ?total = "[2 / 10 + haversine (dest d) (dest p1),
                 5 / 10 + haversine (dest d) (dest p2),
                 9 / 10 + haversine (dest d) (dest p3)]"
  define ranked where "ranked = sort_key ?key ?cands"
  define sel where "sel = take 2 ranked"
  define L where "L = fold (assign 0) sel ?s"
  define u where "u = fst (ranked ! 2)"
  have len: "length ranked = 3" by (simp add: ranked_def)
  have len2: "length sel = 2" by (simp add: sel_def len)
  have 1: "sorted (map ?key ranked)"
    unfolding ranked_def by (rule sorted_sort_key)
  have "mset (map fst ranked) = mset (map fst ?cands)"
    unfolding ranked_def by (simp only: mset_map mset_sort)
  moreover have "distinct (map fst ?cands)" by simp
  ultimately have dist: "distinct (map fst ranked)"
    by (metis mset_eq_imp_distinct_iff)
  have mem: "fst (ranked ! 0) \<in> fst ` set sel" "fst (ranked ! 1) \<in> fst ` set sel"
    "u \<notin> fst ` set sel"
    unfolding sel_def u_def using take_2_of_3 [OF len dist] by blast+
  have "set (map fst ranked) = set (map fst ?cands)"
    unfolding ranked_def by (simp only: set_map set_sort)
  then have s3: "set (map fst ranked) = {0, 1, 2}" by simp
  have lt3: "x < 3" if "x \<in> set (map fst ranked)" for x
    using that unfolding s3 by auto
  have "fst (ranked ! 0) \<in> set (map fst ranked)"
    using len by simp
  then have in0: "fst (ranked ! 0) < 3" by (rule lt3)
  have "fst (ranked ! 1) \<in> set (map fst ranked)"
    using len by simp
  then have in1: "fst (ranked ! 1) < 3" by (rule lt3)
  have "u \<in> set (map fst ranked)"
    using len by (simp add: u_def)
  then have u3: "u < 3" by (rule lt3)
  have order: "drivers ?s = [0]"
    using shuffle_single [of shuffle d] sh by (simp add: shuffled_state_simps)
  have st: "dstore ?s = [d]" "length (pstore ?s) = 3" "match_details ?s = []"
    by (simp_all add: shuffled_state_simps)
  have cands: "candidates d (pstore ?s) = ?cands"
    using d p pick dropoff
    by (simp add: shuffled_state_simps record_rejections_def candidates_def candidate_def
          List.map_filter_def Let_def SEARCH_RADIUS_KM_def upt_rec del: not_None_eq)
  have "selected 0 ?s = slice_to (sort_key rank_key (candidates d (pstore ?s))) 2"
    using d by (simp add: selected_def Let_def st)
  then have sel: "selected 0 ?s = sel"
    unfolding cands sel_def ranked_def rank_key_sum by (simp add: slice_to_def)
  have loop: "fold process_driver (drivers ?s) ?s = L"
    unfolding order L_def by (simp add: process_driver_fold sel)
  have F: "?F = refresh_all L"
    unfolding match_algorithm_def driver_loop_def loop ..
  have md: "match_details ?F
      = map (\<lambda>c. \<lparr>md_driver = 0, md_passenger = fst c, pickup_dist = fst (snd c),
                   dropoff_dist = snd (snd c), md_fare = 45\<rparr>) sel"
    unfolding F L_def by (simp only: refresh_all_simps match_details_fold_assign st append_Nil)
  have 2: "map md_passenger (match_details ?F) = map fst sel"
    unfolding md by (simp add: comp_def)
  have "map md_driver (match_details ?F) = map (\<lambda>c. 0) sel"
    unfolding md by (simp add: comp_def)
  also have "\<dots> = replicate (length sel) 0" by (simp only: map_replicate_const)
  finally have 3: "map md_driver (match_details ?F) = [0, 0]"
    unfolding len2 by (simp add: numeral_2_eq_2)
  have a0: "0 < length (dstore ?s)" by (simp add: st)
  have ds: "dstore ?F ! 0
      = d\<lparr>passengers := passengers d @ map fst sel, capacity := capacity d - int (length sel)\<rparr>"
    unfolding F L_def refresh_all_simps dstore_fold_assign [OF a0] by (simp add: st)
  have 4: "passengers (dstore ?F ! 0) = passengers d @ map fst sel"
    unfolding ds by simp
  have 5: "capacity (dstore ?F ! 0) = 0"
    unfolding ds len2 using d by simp
  have lp: "length (pstore L) = 3"
    unfolding L_def by (simp only: length_pstore_fold_assign st)
  have mt: "matched_driver (pstore ?F ! k)
      = (if k \<in> fst ` set sel then Some 0 else matched_driver (?ps ! k))"
    if "k < 3" for k
  proof -
    have "matched_driver (pstore ?F ! k) = matched_driver (pstore L ! k)"
      using that lp by (simp add: F refresh_all_simps refresh_matched_simps)
    also have "\<dots> = (if k \<in> fst ` set sel then Some 0 else matched_driver (pstore ?s ! k))"
      unfolding L_def using that by (simp only: matched_fold_assign st)
    also have "matched_driver (pstore ?s ! k) = matched_driver (?ps ! k)"
      using that
      by (auto simp add: less_Suc_eq numeral_3_eq_3 shuffled_state_simps record_rejections_simps)
    finally show ?thesis .
  qed
  have 6: "matched_driver (pstore ?F ! fst (ranked ! 0)) = Some 0"
    using mt [OF in0] mem(1) by simp
  have 7: "matched_driver (pstore ?F ! fst (ranked ! 1)) = Some 0"
    using mt [OF in1] mem(2) by simp
  have un: "matched_driver (?ps ! k) = None" if "k < 3" for k
    using that p by (auto simp add: less_Suc_eq numeral_3_eq_3)
  have 8: "matched_driver (pstore ?F ! u) = None"
    using mt [OF u3] mem(3) un [OF u3] by simp
  have "matched_driver (pstore L ! u) = None"
    using 8 u3 lp by (simp add: F refresh_all_simps refresh_matched_simps)
  then have "rejection_reasons (pstore ?F ! u) = rejection_reasons (pstore L ! u)"
    using u3 lp by (simp add: F refresh_all_simps refresh_matched_None)
  also have "\<dots> = map (\<lambda>x. verdict x (?ps ! u)) [d]"
    unfolding loop [symmetric] using u3 by (intro loop_rejections) simp
  finally have rr: "rejection_reasons (pstore ?F ! u) = [verdict d (?ps ! u)]" by simp
  have comp: "is_compatible (verdict d (?ps ! k))" if "k < 3" for k
    using that d p pick dropoff
    by (auto simp add: less_Suc_eq numeral_3_eq_3 is_compatible_verdict SEARCH_RADIUS_KM_def)
  have 9: "length (rejection_reasons (pstore ?F ! u)) = 1"
    and 10: "reasons (rejection_reasons (pstore ?F ! u) ! 0) = []"
    and 11: "is_compatible (rejection_reasons (pstore ?F ! u) ! 0)"
    and 12: "matched (rejection_reasons (pstore ?F ! u) ! 0) = None"
    unfolding rr using comp [OF u3] by (simp_all add: reasons_verdict verdict_simps)
  have set_sel: "fst ` set sel = {0, 1, 2} - {u}"
    unfolding sel_def u_def using take_2_of_3 (4) [OF len dist] s3 by simp
  have 13: "\<forall>i < 3. matched_driver (pstore ?F ! i) = (if i = u then None else Some 0)"
  proof (intro allI impI)
    fix i :: nat assume i: "i < 3"
    then have "i \<in> {0, 1, 2}" by auto
    then have "i \<in> fst ` set sel \<longleftrightarrow> i \<noteq> u" unfolding set_sel by blast
    then show "matched_driver (pstore ?F ! i) = (if i = u then None else Some 0)"
      using mt [OF i] un [OF i] by (cases "i = u") simp_all
  qed
  have keyc: "?key c = ?total ! fst c" if "c \<in> set ?cands" for c
    using that by auto
  have setr: "set ranked = set ?cands"
    unfolding ranked_def by (rule set_sort)
  have "ranked ! 2 \<in> set ranked" using len by simp
  then have ku: "?key (ranked ! 2) = ?total ! u"
    unfolding u_def using keyc setr by blast
  have 14: "\<forall>i < 3. ?total ! i \<le> ?total ! u"
  proof (intro allI impI)
    fix i :: nat assume i: "i < 3"
    then have "?cands ! i \<in> set ?cands" by (intro nth_mem) simp
    moreover have fi: "fst (?cands ! i) = i"
      using i by (auto simp add: less_Suc_eq numeral_3_eq_3)
    ultimately have ki: "?key (?cands ! i) = ?total ! i"
      using keyc by metis
    from \<open>?cands ! i \<in> set ?cands\<close> have "?cands ! i \<in> set ranked"
      unfolding setr .
    then obtain j where j: "j < length ranked" "ranked ! j = ?cands ! i"
      by (auto simp add: in_set_conv_nth)
    then have "j \<le> 2" using len by simp
    then have "map ?key ranked ! j \<le> map ?key ranked ! 2"
      using 1 len by (intro sorted_nth_mono) simp_all
    then have "?key (ranked ! j) \<le> ?key (ranked ! 2)"
      using j(1) len by simp
    then show "?total ! i \<le> ?total ! u"
      unfolding j(2) ki ku .
  qed
  have "fst (ranked ! 2) < 3
      \<and> (\<forall>i < 3. ?total ! i \<le> ?total ! fst (ranked ! 2))
      \<and> (\<forall>i < 3. matched_driver (pstore ?F ! i)
             = (if i = fst (ranked ! 2) then None else Some 0))
      \<and> sorted (map ?key ranked)
      \<and> map md_passenger (match_details ?F) = map fst (take 2 ranked)
      \<and> map md_driver (match_details ?F) = [0, 0]
      \<and> passengers (dstore ?F ! 0) = passengers d @ map fst (take 2 ranked)
      \<and> capacity (dstore ?F ! 0) = 0
      \<and> matched_driver (pstore ?F ! fst (ranked ! 0)) = Some 0
      \<and> matched_driver (pstore ?F ! fst (ranked ! 1)) = Some 0
      \<and> matched_driver (pstore ?F ! fst (ranked ! 2)) = None
      \<and> length (rejection_reasons (pstore ?F ! fst (ranked ! 2))) = 1
      \<and> reasons (rejection_reasons (pstore ?F ! fst (ranked ! 2)) ! 0) = []
      \<and> is_compatible (rejection_reasons (pstore ?F ! fst (ranked ! 2)) ! 0)
      \<and> matched (rejection_reasons (pstore ?F ! fst (ranked ! 2)) ! 0) = None"
    using 1 2 3 4 5 6 7 u3 8 9 10 11 12 13 14 unfolding sel_def u_def by blast
  then show ?thesis
    unfolding Let_def ranked_def .
qed

text \<open>
  The claim as stated fails on the scenario with every drop-off at the driver's
  destination: the third passenger is left unmatched by a driver whose capacity ended at
  0, and the entry recorded against that driver holds no reason.
\<close>

theorem full_capacity_records_no_reason:
  "map md_passenger (match_details (match_algorithm id [sc_driver] sc_passengers)) = [0, 1]
   \<and> capacity (dstore (match_algorithm id [sc_driver] sc_passengers) ! 0) = 0
   \<and> matched_driver (pstore (match_algorithm id [sc_driver] sc_passengers) ! 2) = None
   \<and> rejection_reasons (pstore (match_algorithm id [sc_driver] sc_passengers) ! 2) =
       [\<lparr>driver_id = 0, driver_name = ''Ali_0'', rej_pickup_distance = 9 / 10,
         rej_dropoff_distance = 0, reasons = [], is_compatible = True, matched = None\<rparr>]
   \<and> reasons (rejection_reasons
         (pstore (match_algorithm id [sc_driver] sc_passengers) ! 2) ! 0) = []"
  by (simp add: sc_match_details sc_dstore sc_third_passenger Passenger_def)

theorem full_capacity_scenario_witness:
  "mset (id [0..<length [sc_driver]]) = mset [0..<length [sc_driver]]
   \<and> capacity sc_driver = 2 \<and> schedule sc_driver = 8
   \<and> haversine (origin sc_driver) (origin (sc_detour_passengers ! 0)) = 2 / 10
   \<and> haversine (origin sc_driver) (origin (sc_detour_passengers ! 1)) = 5 / 10
   \<and> haversine (origin sc_driver) (origin (sc_detour_passengers ! 2)) = 9 / 10
   \<and> haversine (dest sc_driver) (dest (sc_detour_passengers ! 0)) = 9 / 10
   \<and> haversine (dest sc_driver) (dest (sc_detour_passengers ! 1)) = 0
   \<and> haversine (dest sc_driver) (dest (sc_detour_passengers ! 2)) = 0
   \<and> map md_passenger (match_details (match_algorithm id [sc_driver] sc_detour_passengers))
       = [1, 2]
   \<and> matched_driver (pstore (match_algorithm id [sc_driver] sc_detour_passengers) ! 1) = Some 0
   \<and> matched_driver (pstore (match_algorithm id [sc_driver] sc_detour_passengers) ! 2) = Some 0
   \<and> matched_driver (pstore (match_algorithm id [sc_driver] sc_detour_passengers) ! 0) = None
   \<and> capacity (dstore (match_algorithm id [sc_driver] sc_detour_passengers) ! 0) = 0
   \<and> reasons (rejection_reasons
         (pstore (match_algorithm id [sc_driver] sc_detour_passengers) ! 0) ! 0) = []"
proof -
  let ?F = "match_algorithm id [sc_driver] sc_detour_passengers"
  have h: "mset (id [0..<length [sc_driver]]) = mset [0..<length [sc_driver]]"
    by simp
  have r: "sort_key (\<lambda>c. fst (snd c) + snd (snd c))
        [(0::nat, 2 / 10 :: real, 9 / 10 :: real), (1, 5 / 10, 0), (2, 9 / 10, 0)]
      = [(1, 5 / 10, 0), (2, 9 / 10, 0), (0, 2 / 10, 9 / 10)]"
    by simp
  have F: "match_algorithm id [sc_driver]
      [sc_detour_passengers ! 0, sc_detour_passengers ! 1, sc_detour_passengers ! 2] = ?F"
    using sc_detour_passengers_list by simp
  note t = full_capacity_scenario [of id sc_driver "sc_detour_passengers ! 0"
      "sc_detour_passengers ! 1" "sc_detour_passengers ! 2",
      unfolded Let_def sc_detour_facts(12-14) r F]
  have c: "map md_passenger (match_details ?F) = [1, 2]
      \<and> matched_driver (pstore ?F ! 1) = Some 0
      \<and> matched_driver (pstore ?F ! 2) = Some 0
      \<and> matched_driver (pstore ?F ! 0) = None
      \<and> capacity (dstore ?F ! 0) = 0
      \<and> reasons (rejection_reasons (pstore ?F ! 0) ! 0) = []"
    using t [OF h sc_detour_facts(1-11)] by (simp add: numeral_2_eq_2)
  from h c show ?thesis using sc_detour_facts by simp
qed

section \<open>Division by zero in the statistics\<close>

lemma py_error_only: "(e::py_error) = ZeroDivisionError"
  by (cases e) simp

lemma percent_of_zero: "percent_of k 0 = Inl ZeroDivisionError"
  by (simp add: percent_of_def truediv_def then_err_def)

text \<open>
  Claim C9. With no drivers, the fleet-occupancy division of the export raises
  \<^verbatim>\<open>ZeroDivisionError\<close>; with no passengers the matched percentage of
  \<^verbatim>\<open>print_matching_results\<close> raises it, and with passengers but no drivers the
  first car-occupancy percentage does. None of them yields a defined 0 percent: only the
  fleet occupancy of \<^verbatim>\<open>print_matching_results\<close> is guarded, and it is not reached.
\<close>

theorem statistics_raise_on_empty_lists:
  "export_statistics [] ps = Inl ZeroDivisionError
   \<and> print_matching_results ds [] = Inl ZeroDivisionError
   \<and> print_matching_results [] ps = Inl ZeroDivisionError"
proof -
  have 1: "export_statistics [] ps = Inl ZeroDivisionError"
    by (simp add: export_statistics_def truediv_def then_err_def)
  have 2: "print_matching_results ds [] = Inl ZeroDivisionError"
    by (simp add: print_matching_results_def percent_of_zero then_err_def)
  have 3: "print_matching_results [] ps = Inl ZeroDivisionError"
    by (cases "percent_of (length (filter (\<lambda>p. matched_driver p \<noteq> None) ps)) (length ps)";
        cases "percent_of (length (filter (\<lambda>p. matched_driver p = None) ps)) (length ps)")
       (simp_all add: print_matching_results_def percent_of_zero then_err_def py_error_only)
  from 1 2 3 show ?thesis by simp
qed

section \<open>The shuffle permutes the caller's list\<close>

text \<open>
  Claim C10. \<^verbatim>\<open>match_algorithm\<close> changes the caller's driver list itself: on return
  the list is what the shuffle made of the list at entry, a permutation of it, so the
  driver objects stand in processing order and not in input order. The rejection
  entries of every passenger were written before the shuffle and follow the order of the
  list at entry.
\<close>

theorem drivers_permuted_in_place:
  assumes "mset (shuffle [0..<length ds]) = mset [0..<length ds]"
  shows "drivers_list (entry_state ds ps) = ds
         \<and> drivers (match_algorithm shuffle ds ps) = shuffle (drivers (entry_state ds ps))
         \<and> mset (drivers (match_algorithm shuffle ds ps)) = mset (drivers (entry_state ds ps))
         \<and> map user.truncate (drivers_list (match_algorithm shuffle ds ps))
             = map (\<lambda>a. user.truncate (ds ! a)) (shuffle [0..<length ds])
         \<and> (\<forall>q \<in> set (pstore (match_algorithm shuffle ds ps)).
               map driver_id (rejection_reasons q) = map ident ds)"
proof -
  let ?s = "shuffled_state shuffle ds ps"
  let ?L = "fold process_driver (drivers ?s) ?s"
  let ?F = "match_algorithm shuffle ds ps"
  have F: "?F = refresh_all ?L"
    by (simp add: match_algorithm_def driver_loop_def)
  have 1: "drivers_list (entry_state ds ps) = ds"
    by (simp add: drivers_list_def entry_state_def map_nth)
  have d: "drivers ?F = shuffle [0..<length ds]"
    using loop_frame [of "drivers ?s" ?s] by (simp add: F refresh_all_simps shuffled_state_simps)
  then have 2: "drivers ?F = shuffle (drivers (entry_state ds ps))"
    by (simp add: entry_state_def)
  have 3: "mset (drivers ?F) = mset (drivers (entry_state ds ps))"
    unfolding d using assms by (simp add: entry_state_def)
  have u: "map user.truncate (dstore ?F) = map user.truncate ds"
    by (rule match_algorithm_users)
  have r: "set (shuffle [0..<length ds]) \<subseteq> {..<length ds}"
    using assms by (rule shuffle_in_range)
  have "user.truncate (dstore ?F ! a) = user.truncate (ds ! a)"
    if "a \<in> set (shuffle [0..<length ds])" for a
  proof -
    from that r have "a < length ds" by auto
    then have "a < length (dstore ?F)" using users_length [OF u] by simp
    then show ?thesis using u by (rule users_nth [rotated])
  qed
  then have 4: "map user.truncate (drivers_list ?F)
      = map (\<lambda>a. user.truncate (ds ! a)) (shuffle [0..<length ds])"
    unfolding drivers_list_def d by simp
  have 5: "\<forall>q \<in> set (pstore ?F). map driver_id (rejection_reasons q) = map ident ds"
    using final_rejection_ids by blast
  from 1 2 3 4 5 show ?thesis by blast
qed

theorem drivers_permuted_in_place_witness:
  "mset (rev [0..<length ex_drivers]) = mset [0..<length ex_drivers]
   \<and> map ident ex_drivers = [0, 1]
   \<and> drivers (match_algorithm rev ex_drivers ex_passengers) = [1, 0]
   \<and> map ident (drivers_list (match_algorithm rev ex_drivers ex_passengers)) = [1, 0]
   \<and> map driver_id (rejection_reasons (pstore (match_algorithm rev ex_drivers ex_passengers) ! 0))
       = [0, 1]"
proof -
  let ?F = "match_algorithm rev ex_drivers ex_passengers"
  have h: "mset (rev [0..<length ex_drivers]) = mset [0..<length ex_drivers]"
    by simp
  have i: "map ident ex_drivers = [0, 1]"
    by (simp add: ex_drivers_def Driver_def)
  note t = drivers_permuted_in_place [of rev ex_drivers ex_passengers, OF h]
  have "drivers ?F = rev (drivers (entry_state ex_drivers ex_passengers))"
    using t by blast
  then have 1: "drivers ?F = [1, 0]"
    by (simp add: entry_state_def ex_drivers_def upt_rec)
  have 2: "map ident (drivers_list ?F) = [1, 0]"
    by (simp add: drivers_list_def 1 ex_dstore Driver_def)
  have "pstore ?F ! 0 \<in> set (pstore ?F)" by (simp add: ex_pstore)
  then have "map driver_id (rejection_reasons (pstore ?F ! 0)) = map ident ex_drivers"
    using t by blast
  then have 3: "map driver_id (rejection_reasons (pstore ?F ! 0)) = [0, 1]"
    by (simp add: i)
  from h i 1 2 3 show ?thesis by blast
qed

end
